theory Spec2Isabelle
  imports Main "HOL-Library.AList" "HOL-Library.Multiset"
begin

section \<open>Data model of endpoints/server.go\<close>

text \<open>
  The structs of \<^verbatim>\<open>server.go\<close>. Slices of strings are lists; \<^verbatim>\<open>int64\<close> dates are
  only stored and compared, never added, so they are integers.
\<close>

record User =
  UserID :: string
  DisplayName :: string
  Email :: string
  FollowsMe :: "string list"
  IFollow :: "string list"
  IWantToFollow :: "string list"

record Photo =
  PhotoID :: string
  Date :: int

record ToLike =
  LikeUserID :: string

record Comment =
  PersonID :: string
  Text :: string
  Time :: int

record Status =
  StatusKind :: string
  StatusStatus :: string

record TLEntry =
  Created :: int
  TLUserID :: string
  Name :: string
  TLPhotoID :: string
  Likes :: int
  ILike :: bool

record Timeline =
  TimelineKind :: string
  Entries :: "TLEntry list"

record Stats =
  Following :: int
  Followers :: int

text \<open>The zero value of \<^verbatim>\<open>User\<close>, what \<^verbatim>\<open>var u User\<close> and \<^verbatim>\<open>&User{}\<close> hold.\<close>

definition zeroUser :: User where
  "zeroUser = \<lparr>UserID = [], DisplayName = [], Email = [], FollowsMe = [], IFollow = [],
     IWantToFollow = []\<rparr>"

definition DEBUG :: bool where
  "DEBUG = True"

section \<open>The App Engine collaborators\<close>

subsection \<open>Errors, keys and entities\<close>

datatype error =
    ErrNoSuchEntity
  | ErrInvalidKey
  | ErrFieldMismatch
  | ErrInternal
  | ErrConcurrentTransaction
  | ErrInvalidFilter
  | ErrInvalidOrder
  | ErrSyntax
  | ErrRange
  | Errorf string error

text \<open>
  A \<^verbatim>\<open>*datastore.Key\<close> is a chain of (kind, stringID, intID) elements from the entity
  up to its root; \<^verbatim>\<open>nil\<close> is the empty chain.
\<close>

type_synonym KeyElem = "string \<times> string \<times> int"
type_synonym Key = "KeyElem list"

definition NewKey :: "string \<Rightarrow> string \<Rightarrow> int \<Rightarrow> Key \<Rightarrow> Key" where
  "NewKey knd sid iid parent = (knd, sid, iid) # parent"

fun StringID :: "Key \<Rightarrow> string" where
  "StringID [] = []"
| "StringID ((knd, sid, iid) # p) = sid"

fun Kind :: "Key \<Rightarrow> string" where
  "Kind [] = []"
| "Kind ((knd, sid, iid) # p) = knd"

fun Incomplete :: "Key \<Rightarrow> bool" where
  "Incomplete [] = True"
| "Incomplete ((knd, sid, iid) # p) = (sid = [] \<and> iid = 0)"

fun valid_chain :: "Key \<Rightarrow> bool" where
  "valid_chain [] = True"
| "valid_chain ((knd, sid, iid) # p) =
     (knd \<noteq> [] \<and> \<not> (sid \<noteq> [] \<and> iid \<noteq> 0) \<and> (p = [] \<or> \<not> Incomplete p) \<and> valid_chain p)"

definition valid :: "Key \<Rightarrow> bool" where
  "valid k = (k \<noteq> [] \<and> valid_chain k)"

text \<open>
  The datastore holds the entities of each kind under their keys. An association list keeps
  them in the order they were first written; a key is looked up with \<open>map_of\<close>.
\<close>

record Datastore =
  users :: "(Key \<times> User) list"
  photos :: "(Key \<times> Photo) list"
  likes :: "(Key \<times> ToLike) list"
  comments :: "(Key \<times> Comment) list"

subsection \<open>The request context\<close>

text \<open>
  Every datastore call of the source has an error branch. Besides the errors the stored
  data decides (no such entity, invalid key), a call can fail in the service; the context
  of a request says which calls do. It also carries the clock and the id the datastore
  allocates for an incomplete key.
\<close>

record Context =
  get_fails :: "Key \<Rightarrow> bool"
  put_fails :: "Key \<Rightarrow> bool"
  delete_fails :: "Key \<Rightarrow> bool"
  query_fails :: "string \<Rightarrow> bool"
  commit_fails :: bool
  alloc_id :: int
  now :: int

definition healthy :: Context where
  "healthy = \<lparr>get_fails = (\<lambda>k. False), put_fails = (\<lambda>k. False),
     delete_fails = (\<lambda>k. False), query_fails = (\<lambda>k. False), commit_fails = False,
     alloc_id = 1, now = 1\<rparr>"

datatype LogEntry = LogError string | LogInfo string

datatype Task = Task string "string list"

text \<open>
  The world a handler runs in: the datastore, the queue of deferred tasks, the log, and
  the Redis side that \<^verbatim>\<open>like\<close>, \<^verbatim>\<open>unlike\<close> and \<^verbatim>\<open>flag\<close> (defined outside
  \<^verbatim>\<open>server.go\<close>) write to.
\<close>

record 'r World =
  ds :: Datastore
  tasks :: "Task list"
  logs :: "LogEntry list"
  redis :: 'r

definition Errorf_log :: "string \<Rightarrow> 'r World \<Rightarrow> 'r World" where
  "Errorf_log msg w = w\<lparr>logs := logs w @ [LogError msg]\<rparr>"

definition Infof_log :: "string \<Rightarrow> 'r World \<Rightarrow> 'r World" where
  "Infof_log msg w = w\<lparr>logs := logs w @ [LogInfo msg]\<rparr>"

definition Call :: "string \<Rightarrow> string list \<Rightarrow> 'r World \<Rightarrow> 'r World" where
  "Call name args w = w\<lparr>tasks := tasks w @ [Task name args]\<rparr>"

subsection \<open>Get, Put, Delete and transactions\<close>

definition Get :: "Context \<Rightarrow> Key \<Rightarrow> (Key \<times> 'e) list \<Rightarrow> error + 'e" where
  "Get cx k tab =
     (if \<not> valid k \<or> Incomplete k then Inl ErrInvalidKey
      else if get_fails cx k then Inl ErrInternal
      else case map_of tab k of None \<Rightarrow> Inl ErrNoSuchEntity | Some e \<Rightarrow> Inr e)"

text \<open>\<^verbatim>\<open>Put\<close> on an incomplete key stores under the id the datastore allocates.\<close>

fun complete_key :: "int \<Rightarrow> Key \<Rightarrow> Key" where
  "complete_key n [] = []"
| "complete_key n ((knd, sid, iid) # p) =
     (if sid = [] \<and> iid = 0 then (knd, sid, n) # p else (knd, sid, iid) # p)"

definition Put :: "Context \<Rightarrow> Key \<Rightarrow> 'e \<Rightarrow> (Key \<times> 'e) list \<Rightarrow> error + (Key \<times> 'e) list" where
  "Put cx k e tab =
     (if \<not> valid k then Inl ErrInvalidKey
      else if put_fails cx k then Inl ErrInternal
      else Inr (AList.update (complete_key (alloc_id cx) k) e tab))"

definition Delete :: "Context \<Rightarrow> Key \<Rightarrow> (Key \<times> 'e) list \<Rightarrow> error + (Key \<times> 'e) list" where
  "Delete cx k tab =
     (if \<not> valid k \<or> Incomplete k then Inl ErrInvalidKey
      else if delete_fails cx k then Inl ErrInternal
      else Inr (AList.delete k tab))"

text \<open>
  \<^verbatim>\<open>RunInTransaction\<close>: the function runs on the datastore as it is at the start; when it
  returns an error, or the commit fails, nothing it wrote is kept. What it logged stays.
\<close>

definition RunInTransaction ::
  "Context \<Rightarrow> (Context \<Rightarrow> Datastore \<Rightarrow> (error + Datastore) \<times> LogEntry list) \<Rightarrow> 'r World
     \<Rightarrow> error option \<times> 'r World" where
  "RunInTransaction cx f w =
     (case f cx (ds w) of
        (Inl e, lg) \<Rightarrow> (Some e, w\<lparr>logs := logs w @ lg\<rparr>)
      | (Inr d', lg) \<Rightarrow>
          if commit_fails cx then (Some ErrConcurrentTransaction, w\<lparr>logs := logs w @ lg\<rparr>)
          else (None, w\<lparr>ds := d', logs := logs w @ lg\<rparr>))"

subsection \<open>Strings\<close>

text \<open>
  The functions of \<^verbatim>\<open>strings\<close> and \<^verbatim>\<open>strconv\<close> the source and the query builder
  call, on byte strings; white space is the ASCII white space. \<^verbatim>\<open>Split\<close> is taken with
  a separator of one byte, as every call of the source has it.
\<close>

definition isSpace :: "char \<Rightarrow> bool" where
  "isSpace c = (c \<in> set [CHR 0x09, CHR 0x0A, CHR 0x0B, CHR 0x0C, CHR 0x0D, CHR '' ''])"

definition TrimSpace :: "string \<Rightarrow> string" where
  "TrimSpace s = rev (dropWhile isSpace (rev (dropWhile isSpace s)))"

definition TrimRight :: "string \<Rightarrow> string \<Rightarrow> string" where
  "TrimRight s cutset = rev (dropWhile (\<lambda>c. c \<in> set cutset) (rev s))"

fun Split :: "string \<Rightarrow> char \<Rightarrow> string list" where
  "Split [] sep = [[]]"
| "Split (c # s) sep =
     (if c = sep then [] # Split s sep
      else case Split s sep of [] \<Rightarrow> [[c]] | x # xs \<Rightarrow> (c # x) # xs)"

definition isDigit :: "char \<Rightarrow> bool" where
  "isDigit c = (48 \<le> (of_char c :: nat) \<and> (of_char c :: nat) \<le> 57)"

fun digits_value :: "nat \<Rightarrow> string \<Rightarrow> nat" where
  "digits_value acc [] = acc"
| "digits_value acc (c # s) = digits_value (acc * 10 + (of_char c - 48)) s"

text \<open>
  \<^verbatim>\<open>strconv.ParseInt(s, 10, 64)\<close>: an optional sign and decimal digits; a syntax error
  gives 0, a value out of the range of \<^verbatim>\<open>int64\<close> gives the nearest bound, both with an
  error.
\<close>

definition ParseInt :: "string \<Rightarrow> int \<times> error option" where
  "ParseInt s =
     (let neg = (s \<noteq> [] \<and> hd s = CHR ''-'');
          body = (if s \<noteq> [] \<and> (hd s = CHR ''+'' \<or> hd s = CHR ''-'') then tl s else s)
      in if body = [] \<or> \<not> list_all isDigit body then (0, Some ErrSyntax)
         else let un = int (digits_value 0 body)
              in if \<not> neg \<and> un \<ge> 2 ^ 63 then (2 ^ 63 - 1, Some ErrRange)
                 else if neg \<and> un > 2 ^ 63 then (- (2 ^ 63), Some ErrRange)
                 else (if neg then - un else un, None))"

subsection \<open>Queries\<close>

datatype Operator = OpLess | OpLessEq | OpEqual | OpGreaterEq | OpGreater

datatype Value = VStr string | VInt int

record Query =
  q_kind :: string
  q_ancestor :: Key
  q_filter :: "(string \<times> Operator \<times> Value) list"
  q_order :: "(string \<times> bool) list"
  q_keysOnly :: bool
  q_limit :: int
  q_err :: "error option"

definition NewQuery :: "string \<Rightarrow> Query" where
  "NewQuery knd = \<lparr>q_kind = knd, q_ancestor = [], q_filter = [], q_order = [],
     q_keysOnly = False, q_limit = - 1, q_err = None\<rparr>"

definition Ancestor :: "Key \<Rightarrow> Query \<Rightarrow> Query" where
  "Ancestor k q = (if k = [] then q\<lparr>q_err := Some ErrInvalidKey\<rparr> else q\<lparr>q_ancestor := k\<rparr>)"

definition parse_operator :: "string \<Rightarrow> Operator option" where
  "parse_operator s =
     (if s = ''<='' then Some OpLessEq
      else if s = ''>='' then Some OpGreaterEq
      else if s = ''<'' then Some OpLess
      else if s = ''>'' then Some OpGreater
      else if s = ''='' then Some OpEqual
      else None)"

text \<open>
  \<^verbatim>\<open>Filter\<close> takes a field name followed by an operator. A string that is empty once
  trimmed, or that names no operator, puts the query in error: \<^verbatim>\<open>GetAll\<close> then returns
  that error and no result.
\<close>

definition Filter :: "string \<Rightarrow> Value \<Rightarrow> Query \<Rightarrow> Query" where
  "Filter filterStr v q =
     (let fs = TrimSpace filterStr in
      if length fs < 1 then q\<lparr>q_err := Some ErrInvalidFilter\<rparr>
      else let fieldName = TrimRight fs '' ><=!'' in
           case parse_operator (TrimSpace (drop (length fieldName) fs)) of
             None \<Rightarrow> q\<lparr>q_err := Some ErrInvalidFilter\<rparr>
           | Some opr \<Rightarrow> q\<lparr>q_filter := q_filter q @ [(fieldName, opr, v)]\<rparr>)"

definition Order :: "string \<Rightarrow> Query \<Rightarrow> Query" where
  "Order fieldName q =
     (let fn = TrimSpace fieldName in
      if fn \<noteq> [] \<and> hd fn = CHR ''+'' then q\<lparr>q_err := Some ErrInvalidOrder\<rparr>
      else let desc = (fn \<noteq> [] \<and> hd fn = CHR ''-'');
               name = (if desc then TrimSpace (tl fn) else fn)
           in if length name = 0 then q\<lparr>q_err := Some ErrInvalidOrder\<rparr>
              else q\<lparr>q_order := q_order q @ [(name, desc)]\<rparr>)"

definition Limit :: "int \<Rightarrow> Query \<Rightarrow> Query" where
  "Limit n q =
     (if n < - (2 ^ 31) \<or> n > 2 ^ 31 - 1 then q\<lparr>q_err := Some ErrRange\<rparr>
      else q\<lparr>q_limit := n\<rparr>)"

definition KeysOnly :: "Query \<Rightarrow> Query" where
  "KeysOnly q = q\<lparr>q_keysOnly := True\<rparr>"

text \<open>
  The properties an entity is indexed by: one per field, one per element for a slice.
\<close>

definition props_User :: "User \<Rightarrow> (string \<times> Value) list" where
  "props_User u =
     [(''UserID'', VStr (UserID u)), (''DisplayName'', VStr (DisplayName u)),
      (''Email'', VStr (Email u))]
     @ map (\<lambda>x. (''FollowsMe'', VStr x)) (FollowsMe u)
     @ map (\<lambda>x. (''IFollow'', VStr x)) (IFollow u)
     @ map (\<lambda>x. (''IWantToFollow'', VStr x)) (IWantToFollow u)"

definition props_Photo :: "Photo \<Rightarrow> (string \<times> Value) list" where
  "props_Photo p = [(''PhotoID'', VStr (PhotoID p)), (''Date'', VInt (Date p))]"

fun bytes_less :: "string \<Rightarrow> string \<Rightarrow> bool" where
  "bytes_less [] [] = False"
| "bytes_less [] (y # ys) = True"
| "bytes_less (x # xs) [] = False"
| "bytes_less (x # xs) (y # ys) =
     ((of_char x :: nat) < of_char y \<or> (x = y \<and> bytes_less xs ys))"

text \<open>The order of property values: integers before strings, strings by bytes.\<close>

fun value_less :: "Value \<Rightarrow> Value \<Rightarrow> bool" where
  "value_less (VInt a) (VInt b) = (a < b)"
| "value_less (VInt a) (VStr b) = True"
| "value_less (VStr a) (VInt b) = False"
| "value_less (VStr a) (VStr b) = bytes_less a b"

fun compare_op :: "Operator \<Rightarrow> Value \<Rightarrow> Value \<Rightarrow> bool" where
  "compare_op OpLess a b = value_less a b"
| "compare_op OpLessEq a b = (a = b \<or> value_less a b)"
| "compare_op OpEqual a b = (a = b)"
| "compare_op OpGreaterEq a b = (a = b \<or> value_less b a)"
| "compare_op OpGreater a b = value_less b a"

definition filter_ok :: "(string \<times> Value) list \<Rightarrow> string \<times> Operator \<times> Value \<Rightarrow> bool" where
  "filter_ok ps f =
     (case f of (fieldName, opr, v) \<Rightarrow>
        list_ex (\<lambda>(n, x). n = fieldName \<and> compare_op opr x v) ps)"

definition has_ancestor :: "Key \<Rightarrow> Key \<Rightarrow> bool" where
  "has_ancestor anc k =
     (anc = [] \<or> (length anc \<le> length k \<and> drop (length k - length anc) k = anc))"

text \<open>
  Results are sorted by the query's orders, an entity without the property of an order
  being left out; the sort is a stable insertion sort, so that entities equal in every
  order stay as the table has them.
\<close>

definition order_value :: "(string \<times> Value) list \<Rightarrow> string \<Rightarrow> Value option" where
  "order_value ps name = map_of ps name"

fun before :: "(string \<times> bool) list \<Rightarrow> (string \<times> Value) list \<Rightarrow> (string \<times> Value) list \<Rightarrow> bool" where
  "before [] a b = True"
| "before ((name, desc) # os) a b =
     (case (order_value a name, order_value b name) of
        (Some x, Some y) \<Rightarrow>
          if x = y then before os a b
          else if desc then value_less y x else value_less x y
      | _ \<Rightarrow> True)"

fun insert_by :: "('a \<Rightarrow> 'a \<Rightarrow> bool) \<Rightarrow> 'a \<Rightarrow> 'a list \<Rightarrow> 'a list" where
  "insert_by le x [] = [x]"
| "insert_by le x (y # ys) = (if le x y then x # y # ys else y # insert_by le x ys)"

definition sort_by :: "('a \<Rightarrow> 'a \<Rightarrow> bool) \<Rightarrow> 'a list \<Rightarrow> 'a list" where
  "sort_by le xs = foldr (insert_by le) xs []"

definition apply_limit :: "int \<Rightarrow> 'a list \<Rightarrow> 'a list" where
  "apply_limit n xs = (if n \<ge> 0 then take (nat n) xs else xs)"

definition GetAll ::
  "('e \<Rightarrow> (string \<times> Value) list) \<Rightarrow> Context \<Rightarrow> Query \<Rightarrow> (Key \<times> 'e) list
     \<Rightarrow> (Key \<times> 'e) list \<times> error option" where
  "GetAll props cx q tab =
     (case q_err q of
        Some e \<Rightarrow> ([], Some e)
      | None \<Rightarrow>
          if query_fails cx (q_kind q) then ([], Some ErrInternal)
          else
            (let hits = filter (\<lambda>(k, e). Kind k = q_kind q \<and> has_ancestor (q_ancestor q) k
                                  \<and> list_all (filter_ok (props e)) (q_filter q)
                                  \<and> list_all (\<lambda>(name, desc). order_value (props e) name \<noteq> None)
                                       (q_order q))
                          (AList.clearjunk tab)
             in (apply_limit (q_limit q)
                   (sort_by (\<lambda>(k1, e1) (k2, e2). before (q_order q) (props e1) (props e2)) hits),
                 None)))"

subsection \<open>Requests and replies\<close>

text \<open>
  \<^verbatim>\<open>Access\<close>, \<^verbatim>\<open>abelanaConfig\<close>, \<^verbatim>\<open>decodeSegment\<close>, \<^verbatim>\<open>like\<close> and
  \<^verbatim>\<open>unlike\<close> are declared outside \<^verbatim>\<open>server.go\<close>. The access token is the user id it
  resolves to, the configuration is the one field the source reads, and the three functions
  are parameters of the handlers that call them; \<^verbatim>\<open>like\<close> and \<^verbatim>\<open>unlike\<close> act on the
  Redis side, where the head of \<^verbatim>\<open>server.go\<close> places the likes of a photo. A
  \<^verbatim>\<open>martini.Params\<close> is a map of strings, the empty string where a name is missing.
\<close>

record Access =
  ID :: string

record Config =
  TimelineBatchSize :: int

type_synonym Params = "string \<Rightarrow> string"

datatype Reply =
    JSON_Status Status
  | JSON_Stats Stats
  | JSON_Timeline Timeline
  | HttpError string int

definition replyJSON :: "Reply list \<Rightarrow> Reply \<Rightarrow> Reply list" where
  "replyJSON rw v = rw @ [v]"

definition replyOk :: "Reply list \<Rightarrow> Reply list" where
  "replyOk rw = replyJSON rw (JSON_Status \<lparr>StatusKind = ''abelana#status'', StatusStatus = ''ok''\<rparr>)"

section \<open>Timeline\<close>

definition profileForUser ::
  "Config \<Rightarrow> Context \<Rightarrow> string \<Rightarrow> string \<Rightarrow> 'r World \<Rightarrow> (TLEntry list \<times> error option) \<times> 'r World" where
  "profileForUser cfg cx userID lastDate w =
     (let k = NewKey ''User'' userID 0 [];
          (u, w1) = (case Get cx k (users (ds w)) of
                       Inl err \<Rightarrow> (zeroUser, Errorf_log ''profileForUser Get1 %v %v'' w)
                     | Inr u \<Rightarrow> (u, w));
          q = Ancestor k (NewQuery ''Photo'');
          (q1, w2) = (if lastDate \<noteq> [] \<and> lastDate \<noteq> ''0''
                      then (case ParseInt lastDate of
                              (n, perr) \<Rightarrow>
                                (Filter [] (VInt n) q,
                                 if perr \<noteq> None
                                 then Errorf_log ''profileForUser ParseInt %v %v %v'' w1 else w1))
                      else (q, w1));
          q2 = Limit (TimelineBatchSize cfg) (Order ''-Date'' q1);
          (res, qerr) = GetAll props_Photo cx q2 (photos (ds w2));
          w3 = (if qerr \<noteq> None then Errorf_log ''profileForUser get2 %v %v'' w2 else w2);
          tline = map (\<lambda>(pk, p). \<lparr>Created = Date p, TLUserID = userID, Name = DisplayName u,
                                 TLPhotoID = PhotoID p, Likes = - 1, ILike = False\<rparr>) res;
          w4 = (if DEBUG then Infof_log ''profileForUser: %v'' w3 else w3)
      in ((tline, None), w4))"

definition GetMyProfile ::
  "Config \<Rightarrow> Context \<Rightarrow> Access \<Rightarrow> Params \<Rightarrow> 'r World \<Rightarrow> Reply list \<times> 'r World" where
  "GetMyProfile cfg cx acc p w =
     (case profileForUser cfg cx (ID acc) (p ''lastdate'') w of
        ((tline, Some err), w1) \<Rightarrow> ([HttpError ''error'' 500], w1)
      | ((tline, None), w1) \<Rightarrow>
          (replyJSON [] (JSON_Timeline \<lparr>TimelineKind = ''abelana#timeline'', Entries = tline\<rparr>), w1))"

definition FProfile ::
  "Config \<Rightarrow> Context \<Rightarrow> Access \<Rightarrow> Params \<Rightarrow> 'r World \<Rightarrow> Reply list \<times> 'r World" where
  "FProfile cfg cx acc p w =
     (case profileForUser cfg cx (p ''personid'') (p ''lastdate'') w of
        ((tline, Some err), w1) \<Rightarrow> ([HttpError ''error'' 500], w1)
      | ((tline, None), w1) \<Rightarrow>
          (replyJSON [] (JSON_Timeline \<lparr>TimelineKind = ''abelana#timeline'', Entries = tline\<rparr>), w1))"

section \<open>Person\<close>

text \<open>The function \<^verbatim>\<open>uniqueP\<close>: false at the first equal item, true at the end.\<close>

fun uniqueP :: "string list \<Rightarrow> string \<Rightarrow> bool" where
  "uniqueP [] item = True"
| "uniqueP (itm # list) item = (if itm = item then False else uniqueP list item)"

text \<open>
  The function \<^verbatim>\<open>followById\<close> runs in its transaction. Both reads come before the
  writes; \<^verbatim>\<open>user\<close> and \<^verbatim>\<open>followed\<close> are two structs even when both keys are the same,
  and a second \<^verbatim>\<open>Put\<close> on a key replaces the first.
\<close>

definition followById_tx ::
  "string \<Rightarrow> string \<Rightarrow> Context \<Rightarrow> Datastore \<Rightarrow> (error + Datastore) \<times> LogEntry list" where
  "followById_tx userID followingID cx d =
     (let kUser = NewKey ''User'' userID 0 [] in
      case Get cx kUser (users d) of
        Inl err \<Rightarrow> (Inl (Errorf ''getMe %v %v %v'' err), [])
      | Inr user \<Rightarrow>
     (let kFollowed = NewKey ''User'' followingID 0 [] in
      case Get cx kFollowed (users d) of
        Inl err \<Rightarrow> (Inl (Errorf ''getFollowed %v %v %v'' err), [])
      | Inr followed \<Rightarrow>
     (let lg = (if DEBUG then [LogInfo ''followByID: (%v %v)%v %v''] else []) in
      case (if uniqueP (IFollow user) followingID
            then Put cx kUser (user\<lparr>IFollow := IFollow user @ [followingID]\<rparr>) (users d)
            else Inr (users d)) of
        Inl err \<Rightarrow> (Inl (Errorf ''updateMe %v %v'' err), lg)
      | Inr us1 \<Rightarrow>
     (case (if uniqueP (FollowsMe followed) userID
            then Put cx kFollowed (followed\<lparr>FollowsMe := FollowsMe followed @ [userID]\<rparr>) us1
            else Inr us1) of
        Inl err \<Rightarrow> (Inl (Errorf ''updateFollowed %v %v'' err), lg)
      | Inr us2 \<Rightarrow> (Inr (d\<lparr>users := us2\<rparr>), lg)))))"

definition followById :: "Context \<Rightarrow> string \<Rightarrow> string \<Rightarrow> 'r World \<Rightarrow> error option \<times> 'r World" where
  "followById cx userID followingID w =
     (case RunInTransaction cx (followById_tx userID followingID) w of
        (Some err, w1) \<Rightarrow> (Some err, w1)
      | (None, w1) \<Rightarrow> (None, Call ''iNowFollow'' [userID, followingID] w1))"

definition FollowByID :: "Context \<Rightarrow> Access \<Rightarrow> Params \<Rightarrow> 'r World \<Rightarrow> Reply list \<times> 'r World" where
  "FollowByID cx acc p w =
     (case followById cx (ID acc) (p ''personid'') w of
        (Some err, w1) \<Rightarrow> (replyOk [], Errorf_log ''FollowByID: %v'' w1)
      | (None, w1) \<Rightarrow> (replyOk [], w1))"

text \<open>
  Modelled from the spec: \<^verbatim>\<open>findUser\<close> is called by \<^verbatim>\<open>Follow\<close> and \<^verbatim>\<open>Statistics\<close>
  and defined outside \<^verbatim>\<open>server.go\<close>. The spec has it load the User record of the given
  id; here it returns that record, or the error of the lookup and no record.
\<close>

definition findUser :: "Context \<Rightarrow> string \<Rightarrow> Datastore \<Rightarrow> error + User" where
  "findUser cx userID d = Get cx (NewKey ''User'' userID 0 []) (users d)"

definition Follow_tx ::
  "string \<Rightarrow> string \<Rightarrow> Context \<Rightarrow> Datastore \<Rightarrow> (error + Datastore) \<times> LogEntry list" where
  "Follow_tx userID email cx d =
     (case findUser cx userID d of
        Inl err \<Rightarrow> (Inl err, [])
      | Inr user \<Rightarrow>
          if uniqueP (IWantToFollow user) email
          then (case Put cx (NewKey ''User'' userID 0 [])
                       (user\<lparr>IWantToFollow := IWantToFollow user @ [email]\<rparr>) (users d) of
                  Inl err \<Rightarrow> (Inl err, [])
                | Inr us \<Rightarrow> (Inr (d\<lparr>users := us\<rparr>), []))
          else (Inr d, []))"

definition Follow ::
  "(string \<Rightarrow> error + string) \<Rightarrow> Context \<Rightarrow> Access \<Rightarrow> Params \<Rightarrow> 'r World
     \<Rightarrow> Reply list \<times> 'r World" where
  "Follow decodeSegment cx acc p w =
     (case decodeSegment (p ''email'') of
        Inl err \<Rightarrow> (replyOk [], Errorf_log ''Follow: ds %v %v'' w)
      | Inr email \<Rightarrow>
     (case GetAll props_User cx
             (KeysOnly (Filter ''Email ='' (VStr email) (NewQuery ''User''))) (users (ds w)) of
        (res, Some err) \<Rightarrow> (replyOk [], Errorf_log ''Follow: %v %v'' w)
      | (res, None) \<Rightarrow>
     (let keys = map fst res in
      if length keys > 0
      then (let w1 = (if DEBUG then Infof_log ''Follow - Found: (%v) %v %v'' w else w) in
            case followById cx (ID acc) (StringID (keys ! 0)) w1 of
              (Some err, w2) \<Rightarrow> (replyOk [], Errorf_log ''Follow: followByID: %v'' w2)
            | (None, w2) \<Rightarrow> (replyOk [], w2))
      else (let w1 = (if DEBUG then Infof_log ''Follow - NOT FOUND %v'' w else w) in
            case RunInTransaction cx (Follow_tx (ID acc) email) w1 of
              (Some err, w2) \<Rightarrow> (replyOk [], Errorf_log ''Follow: %v %v'' w2)
            | (None, w2) \<Rightarrow> (replyOk [], w2)))))"

definition findFollows :: "Context \<Rightarrow> string \<Rightarrow> string \<Rightarrow> 'r World \<Rightarrow> error option \<times> 'r World" where
  "findFollows cx userID email w =
     (case GetAll props_User cx
             (KeysOnly (Filter ''IWantToFollow ='' (VStr email) (NewQuery ''User'')))
             (users (ds w)) of
        (res, Some err) \<Rightarrow> (Some (Errorf ''findFollows: GetAll %v'' err), w)
      | (res, None) \<Rightarrow>
          (None, foldl (\<lambda>w1 key. Call ''followById'' [StringID key, userID] w1) w (map fst res)))"

text \<open>
  \<^verbatim>\<open>Statistics\<close>: the branch of the failed lookup replies and does not return, so the
  function goes on to read the lists of \<^verbatim>\<open>u\<close>, which is nil after a failed lookup:
  the handler panics there, after its first reply.
\<close>

datatype Outcome = Returned | Panicked

definition Statistics ::
  "Context \<Rightarrow> Access \<Rightarrow> Params \<Rightarrow> 'r World \<Rightarrow> (Outcome \<times> Reply list) \<times> 'r World" where
  "Statistics cx acc p w =
     (let (u, err) = (case findUser cx (ID acc) (ds w) of
                        Inl err \<Rightarrow> (None, Some err) | Inr u \<Rightarrow> (Some u, None));
          (rw1, w1) = (if err \<noteq> None
                       then (replyJSON [] (JSON_Stats \<lparr>Following = - 1, Followers = - 1\<rparr>),
                             Errorf_log ''Statistics %v'' w)
                       else ([], w))
      in case u of
           None \<Rightarrow> ((Panicked, rw1), w1)
         | Some u1 \<Rightarrow>
             ((Returned,
               replyJSON rw1 (JSON_Stats \<lparr>Following = int (length (IFollow u1)),
                                         Followers = int (length (FollowsMe u1))\<rparr>)), w1))"

section \<open>Photo\<close>

definition SetPhotoComments ::
  "Context \<Rightarrow> Access \<Rightarrow> Params \<Rightarrow> 'r World \<Rightarrow> Reply list \<times> 'r World" where
  "SetPhotoComments cx acc p w =
     (let s = Split (p ''photoid'') (CHR ''.'') in
      if length s \<noteq> 2 then (replyOk [], w)
      else
        (let userID = s ! 0; photoID = p ''photoid'';
             tod = now cx;
             k1 = NewKey ''User'' userID 0 [];
             k2 = NewKey ''Photo'' photoID 0 k1;
             k3 = NewKey ''Comment'' [] tod k2;
             c = \<lparr>PersonID = ID acc, Text = p ''text'', Time = tod\<rparr>
         in case Put cx k3 c (comments (ds w)) of
              Inl err \<Rightarrow> (replyOk [], Errorf_log ''SetPhotoComments: %v %v'' w)
            | Inr cs \<Rightarrow> (replyOk [], w\<lparr>ds := (ds w)\<lparr>comments := cs\<rparr>\<rparr>)))"

definition Like ::
  "(Context \<Rightarrow> string \<Rightarrow> string \<Rightarrow> 'r \<Rightarrow> 'r) \<Rightarrow> Context \<Rightarrow> Access \<Rightarrow> Params \<Rightarrow> 'r World
     \<Rightarrow> Reply list \<times> 'r World" where
  "Like like cx acc p w =
     (let s = Split (p ''photoid'') (CHR ''.'') in
      if length s \<noteq> 2 then (replyOk [], w)
      else
        (let userID = s ! 0; photoID = p ''photoid'';
             w1 = w\<lparr>redis := like cx (ID acc) photoID (redis w)\<rparr>;
             k1 = NewKey ''User'' userID 0 [];
             k2 = NewKey ''Photo'' photoID 0 k1;
             k3 = NewKey ''Like'' (ID acc) 0 k2;
             l = \<lparr>LikeUserID = ID acc\<rparr>
         in case Put cx k3 l (likes (ds w1)) of
              Inl err \<Rightarrow> (replyOk [], Errorf_log ''Like: %v %v'' w1)
            | Inr ls \<Rightarrow> (replyOk [], w1\<lparr>ds := (ds w1)\<lparr>likes := ls\<rparr>\<rparr>)))"

definition Unlike ::
  "(Context \<Rightarrow> string \<Rightarrow> string \<Rightarrow> 'r \<Rightarrow> 'r) \<Rightarrow> Context \<Rightarrow> Access \<Rightarrow> Params \<Rightarrow> 'r World
     \<Rightarrow> Reply list \<times> 'r World" where
  "Unlike unlike cx acc p w =
     (let s = Split (p ''photoid'') (CHR ''.'') in
      if length s \<noteq> 2 then (replyOk [], w)
      else
        (let userID = s ! 0; photoID = p ''photoid'';
             k1 = NewKey ''User'' userID 0 [];
             k2 = NewKey ''Photo'' photoID 0 k1;
             k3 = NewKey ''Like'' (ID acc) 0 k2
         in case Delete cx k3 (likes (ds w)) of
              Inl err \<Rightarrow> (replyOk [], Errorf_log ''Unlike: %v %v'' w)
            | Inr ls \<Rightarrow>
                (let w1 = w\<lparr>ds := (ds w)\<lparr>likes := ls\<rparr>\<rparr>
                 in (replyOk [], w1\<lparr>redis := unlike cx (ID acc) photoID (redis w1)\<rparr>))))"

section \<open>Vocabulary of the properties\<close>

text \<open>
  A user id resolves when the lookup of its User entity succeeds in the request at hand.
\<close>

definition resolves :: "Context \<Rightarrow> string \<Rightarrow> Datastore \<Rightarrow> bool" where
  "resolves cx userID d =
     (case Get cx (NewKey ''User'' userID 0 []) (users d) of Inl err \<Rightarrow> False | Inr u \<Rightarrow> True)"

text \<open>Calling \<^verbatim>\<open>followById\<close> once per request context of a list, one call after the other.\<close>

definition followById_calls :: "Context list \<Rightarrow> string \<Rightarrow> string \<Rightarrow> 'r World \<Rightarrow> 'r World" where
  "followById_calls cxs userID followingID w =
     fold (\<lambda>cx w1. snd (followById cx userID followingID w1)) cxs w"

text \<open>
  A User record is free of duplicates when neither list holds an id twice; the invariant of
  the data model is that every stored User is.
\<close>

definition duplicate_free :: "User \<Rightarrow> bool" where
  "duplicate_free u = (distinct (IFollow u) \<and> distinct (FollowsMe u))"

definition no_duplicates :: "Datastore \<Rightarrow> bool" where
  "no_duplicates d = list_all (\<lambda>(k, u). distinct (IFollow u) \<and> distinct (FollowsMe u)) (users d)"

text \<open>
  The photos of a user: the Photo entities under the user's key. One photo is newer than or
  as new as another by its date. The query is the one \<^verbatim>\<open>profileForUser\<close> builds; an
  entry of the timeline shows a photo when it carries its date and id under the user's id.
\<close>

definition photos_of :: "string \<Rightarrow> Datastore \<Rightarrow> (Key \<times> Photo) list" where
  "photos_of userID d =
     filter (\<lambda>(k, p). Kind k = ''Photo'' \<and> has_ancestor (NewKey ''User'' userID 0 []) k)
       (AList.clearjunk (photos d))"

definition newer_or_same :: "Key \<times> Photo \<Rightarrow> Key \<times> Photo \<Rightarrow> bool" where
  "newer_or_same a b = (Date (snd b) \<le> Date (snd a))"

definition profile_query :: "string \<Rightarrow> string \<Rightarrow> int \<Rightarrow> Query" where
  "profile_query userID lastDate n =
     Limit n (Order ''-Date''
       (if lastDate \<noteq> [] \<and> lastDate \<noteq> ''0''
        then Filter [] (VInt (fst (ParseInt lastDate)))
               (Ancestor (NewKey ''User'' userID 0 []) (NewQuery ''Photo''))
        else Ancestor (NewKey ''User'' userID 0 []) (NewQuery ''Photo'')))"

definition entry_of :: "string \<Rightarrow> Key \<times> Photo \<Rightarrow> TLEntry \<Rightarrow> bool" where
  "entry_of userID kp e =
     (TLUserID e = userID \<and> Created e = Date (snd kp) \<and> TLPhotoID e = PhotoID (snd kp))"

text \<open>
  The key \<^verbatim>\<open>Like\<close> and \<^verbatim>\<open>Unlike\<close> build for the caller's Like entity, and the Like
  entities stored under the key of a photo.
\<close>

definition like_key :: "Access \<Rightarrow> Params \<Rightarrow> Key" where
  "like_key acc p =
     NewKey ''Like'' (ID acc) 0
       (NewKey ''Photo'' (p ''photoid'') 0
          (NewKey ''User'' (Split (p ''photoid'') (CHR ''.'') ! 0) 0 []))"

definition like_children :: "Key \<Rightarrow> Datastore \<Rightarrow> (Key \<times> ToLike) list" where
  "like_children photo d =
     filter (\<lambda>(k, l). Kind k = ''Like'' \<and> tl k = photo) (AList.clearjunk (likes d))"

section \<open>Example data\<close>

definition ann :: User where
  "ann = \<lparr>UserID = ''ann'', DisplayName = ''Ann'', Email = ''ann@example.com'', FollowsMe = [],
     IFollow = [], IWantToFollow = [''cy@example.com'']\<rparr>"

definition bob :: User where
  "bob = \<lparr>UserID = ''bob'', DisplayName = ''Bob'', Email = ''bob@example.com'', FollowsMe = [],
     IFollow = [], IWantToFollow = []\<rparr>"

definition example_ds :: Datastore where
  "example_ds =
     \<lparr>users = [(NewKey ''User'' ''ann'' 0 [], ann), (NewKey ''User'' ''bob'' 0 [], bob)],
      photos = [(NewKey ''Photo'' ''ann.1'' 0 (NewKey ''User'' ''ann'' 0 []),
                   \<lparr>PhotoID = ''ann.1'', Date = 5\<rparr>),
                (NewKey ''Photo'' ''ann.2'' 0 (NewKey ''User'' ''ann'' 0 []),
                   \<lparr>PhotoID = ''ann.2'', Date = 9\<rparr>),
                (NewKey ''Photo'' ''bob.1'' 0 (NewKey ''User'' ''bob'' 0 []),
                   \<lparr>PhotoID = ''bob.1'', Date = 7\<rparr>)],
      likes = [], comments = []\<rparr>"

definition example_world :: "unit World" where
  "example_world = \<lparr>ds = example_ds, tasks = [], logs = [], redis = ()\<rparr>"

section \<open>Properties of the graph engine\<close>

subsection \<open>Reads, writes and transactions\<close>

lemma uniqueP_iff: "uniqueP xs x \<longleftrightarrow> x \<notin> set xs"
  by (induction xs) auto

lemma complete_key_id: "\<not> Incomplete k \<Longrightarrow> complete_key n k = k"
  by (cases k) auto

lemma Get_InrD:
  "Get cx k tab = Inr e \<Longrightarrow> valid k \<and> \<not> Incomplete k \<and> \<not> get_fails cx k \<and> map_of tab k = Some e"
  by (auto simp: Get_def split: if_splits option.splits)

lemma set_update_subset: "set (AList.update k v al) \<subseteq> insert (k, v) (set al)"
  by (induction al) auto

lemma RunInTransaction_ds:
  "ds (snd (RunInTransaction cx f w)) =
     (case fst (f cx (ds w)) of Inl e \<Rightarrow> ds w | Inr d' \<Rightarrow> if commit_fails cx then ds w else d')"
  by (simp add: RunInTransaction_def split: prod.splits sum.splits)

lemma RunInTransaction_ok:
  "fst (RunInTransaction cx f w) = None \<longleftrightarrow> (\<exists>d'. fst (f cx (ds w)) = Inr d') \<and> \<not> commit_fails cx"
  by (auto simp add: RunInTransaction_def split: prod.splits sum.splits)

lemma followById_ds:
  "ds (snd (followById cx a b w)) =
     (case fst (followById_tx a b cx (ds w)) of
        Inl e \<Rightarrow> ds w | Inr d' \<Rightarrow> if commit_fails cx then ds w else d')"
  using RunInTransaction_ds [of cx "followById_tx a b" w]
  by (cases "RunInTransaction cx (followById_tx a b) w")
     (auto simp add: followById_def Call_def split: option.splits)

lemma followById_ok:
  "fst (followById cx a b w) = None \<longleftrightarrow>
     (\<exists>d'. fst (followById_tx a b cx (ds w)) = Inr d') \<and> \<not> commit_fails cx"
  using RunInTransaction_ok [of cx "followById_tx a b" w]
  by (cases "RunInTransaction cx (followById_tx a b) w")
     (auto simp add: followById_def split: option.splits)

lemma Get_complete: "Get cx k tab = Inr e \<Longrightarrow> complete_key n k = k"
  by (auto simp: Get_def complete_key_id split: if_splits)

lemma followById_tx_InrD:
  assumes "fst (followById_tx a b cx d) = Inr d'"
  shows "\<exists>user followed.
           Get cx (NewKey ''User'' a 0 []) (users d) = Inr user \<and>
           Get cx (NewKey ''User'' b 0 []) (users d) = Inr followed \<and>
           d' = d\<lparr>users :=
              (let us1 = (if b \<notin> set (IFollow user)
                          then AList.update (NewKey ''User'' a 0 []) (user\<lparr>IFollow := IFollow user @ [b]\<rparr>) (users d)
                          else users d)
               in if a \<notin> set (FollowsMe followed)
                  then AList.update (NewKey ''User'' b 0 []) (followed\<lparr>FollowsMe := FollowsMe followed @ [a]\<rparr>) us1
                  else us1)\<rparr>"
proof -
  let ?ka = "NewKey ''User'' a 0 []" and ?kb = "NewKey ''User'' b 0 []"
  from assms obtain user where u: "Get cx ?ka (users d) = Inr user"
    by (auto simp: followById_tx_def Let_def split: sum.splits)
  from assms u obtain followed where f: "Get cx ?kb (users d) = Inr followed"
    by (auto simp: followById_tx_def Let_def split: sum.splits)
  have ca: "complete_key (alloc_id cx) ?ka = ?ka" and cb: "complete_key (alloc_id cx) ?kb = ?kb"
    using u f by (auto dest: Get_complete)
  show ?thesis
    using assms u f ca cb
    by (auto simp: followById_tx_def Let_def uniqueP_iff Put_def split: sum.splits if_splits)
qed

lemma followById_tx_Inl_unresolved:
  "\<not> resolves cx a d \<or> \<not> resolves cx b d \<Longrightarrow> \<exists>e. fst (followById_tx a b cx d) = Inl e"
  by (auto simp: followById_tx_def resolves_def Let_def split: sum.splits)

lemma followById_fail_same:
  "fst (followById cx a b w) \<noteq> None \<Longrightarrow>
     ds (snd (followById cx a b w)) = ds w \<and> tasks (snd (followById cx a b w)) = tasks w"
  by (cases "followById_tx a b cx (ds w)")
     (auto simp: followById_def RunInTransaction_def split: sum.splits if_splits)

lemma followById_missing:
  assumes "\<not> resolves cx a (ds w) \<or> \<not> resolves cx b (ds w)"
  shows "fst (followById cx a b w) \<noteq> None \<and> ds (snd (followById cx a b w)) = ds w
       \<and> tasks (snd (followById cx a b w)) = tasks w"
proof -
  from followById_tx_Inl_unresolved [OF assms] obtain e
    where "fst (followById_tx a b cx (ds w)) = Inl e" ..
  then have "fst (followById cx a b w) \<noteq> None"
    by (simp add: followById_ok)
  then show ?thesis using followById_fail_same by blast
qed

text \<open>
  A call succeeds when both ids resolve and neither the writes nor the commit fail.
\<close>

lemma followById_succeeds:
  assumes "resolves cx a (ds w)" and "resolves cx b (ds w)"
    and "\<not> put_fails cx (NewKey ''User'' a 0 [])" and "\<not> put_fails cx (NewKey ''User'' b 0 [])"
    and "\<not> commit_fails cx"
  shows "fst (followById cx a b w) = None"
proof -
  from assms(1) obtain user where u: "Get cx (NewKey ''User'' a 0 []) (users (ds w)) = Inr user"
    by (auto simp: resolves_def split: sum.splits)
  from assms(2) obtain followed where f: "Get cx (NewKey ''User'' b 0 []) (users (ds w)) = Inr followed"
    by (auto simp: resolves_def split: sum.splits)
  have v: "valid (NewKey ''User'' a 0 [])" "valid (NewKey ''User'' b 0 [])"
    using u f by (auto dest: Get_InrD)
  have "\<exists>d'. fst (followById_tx a b cx (ds w)) = Inr d'"
    using u f v assms(3,4) by (simp add: followById_tx_def Let_def Put_def)
  then show ?thesis using assms(5) by (simp add: followById_ok)
qed

lemma followById_noop:
  assumes ab: "a \<noteq> b"
    and ua: "map_of (users d) (NewKey ''User'' a 0 []) = Some user" "b \<in> set (IFollow user)"
    and ub: "map_of (users d) (NewKey ''User'' b 0 []) = Some followed" "a \<in> set (FollowsMe followed)"
    and d: "ds w = d"
  shows "ds (snd (followById cx a b w)) = d"
proof (cases "fst (followById_tx a b cx d)")
  case (Inl e)
  then show ?thesis by (simp add: followById_ds d)
next
  case (Inr d')
  from followById_tx_InrD [OF Inr] ua ub have "d' = d"
    by (auto dest!: Get_InrD)
  with Inr show ?thesis by (simp add: followById_ds d)
qed

text \<open>
  What a successful call on two different ids leaves under the two keys.
\<close>

lemma followById_effect:
  assumes ab: "a \<noteq> b"
    and ok: "fst (followById cx a b w) = None"
  shows "\<exists>user followed.
           map_of (users (ds w)) (NewKey ''User'' a 0 []) = Some user \<and>
           map_of (users (ds w)) (NewKey ''User'' b 0 []) = Some followed \<and>
           map_of (users (ds (snd (followById cx a b w)))) (NewKey ''User'' a 0 []) =
             Some (user\<lparr>IFollow := if b \<in> set (IFollow user) then IFollow user else IFollow user @ [b]\<rparr>) \<and>
           map_of (users (ds (snd (followById cx a b w)))) (NewKey ''User'' b 0 []) =
             Some (followed\<lparr>FollowsMe := if a \<in> set (FollowsMe followed) then FollowsMe followed
                                          else FollowsMe followed @ [a]\<rparr>)"
proof -
  from ok obtain d' where tx: "fst (followById_tx a b cx (ds w)) = Inr d'" and c: "\<not> commit_fails cx"
    by (auto simp: followById_ok)
  then have dd: "ds (snd (followById cx a b w)) = d'"
    by (simp add: followById_ds)
  from followById_tx_InrD [OF tx] obtain user followed where
    g1: "Get cx (NewKey ''User'' a 0 []) (users (ds w)) = Inr user" and
    g2: "Get cx (NewKey ''User'' b 0 []) (users (ds w)) = Inr followed" and
    d': "d' = (ds w)\<lparr>users :=
              (let us1 = (if b \<notin> set (IFollow user)
                          then AList.update (NewKey ''User'' a 0 []) (user\<lparr>IFollow := IFollow user @ [b]\<rparr>) (users (ds w))
                          else users (ds w))
               in if a \<notin> set (FollowsMe followed)
                  then AList.update (NewKey ''User'' b 0 []) (followed\<lparr>FollowsMe := FollowsMe followed @ [a]\<rparr>) us1
                  else us1)\<rparr>"
    by blast
  have m1: "map_of (users (ds w)) (NewKey ''User'' a 0 []) = Some user"
    and m2: "map_of (users (ds w)) (NewKey ''User'' b 0 []) = Some followed"
    using g1 g2 by (auto dest: Get_InrD)
  have k: "NewKey ''User'' a 0 [] \<noteq> NewKey ''User'' b 0 []"
    using ab by (simp add: NewKey_def)
  show ?thesis
    using m1 m2 k unfolding dd d'
    by (auto simp: Let_def AList.update_conv')
qed

lemma no_duplicates_update:
  "list_all (\<lambda>(k, u). distinct (IFollow u) \<and> distinct (FollowsMe u)) us \<Longrightarrow>
   distinct (IFollow u) \<Longrightarrow> distinct (FollowsMe u) \<Longrightarrow>
     list_all (\<lambda>(k, u). distinct (IFollow u) \<and> distinct (FollowsMe u)) (AList.update k u us)"
  using set_update_subset [of k u us]
  by (auto simp: list_all_iff)

lemma no_duplicates_lookup:
  "no_duplicates d \<Longrightarrow> map_of (users d) k = Some u \<Longrightarrow> distinct (IFollow u) \<and> distinct (FollowsMe u)"
  by (auto simp: no_duplicates_def list_all_iff dest!: map_of_SomeD)

lemma followById_tx_no_duplicates:
  assumes inv: "no_duplicates d" and tx: "fst (followById_tx a b cx d) = Inr d'"
  shows "no_duplicates d'"
proof -
  let ?P = "list_all (\<lambda>(k, u). distinct (IFollow u) \<and> distinct (FollowsMe u))"
  from followById_tx_InrD [OF tx] obtain user followed where
    g1: "Get cx (NewKey ''User'' a 0 []) (users d) = Inr user" and
    g2: "Get cx (NewKey ''User'' b 0 []) (users d) = Inr followed" and
    d': "d' = d\<lparr>users :=
              (let us1 = (if b \<notin> set (IFollow user)
                          then AList.update (NewKey ''User'' a 0 []) (user\<lparr>IFollow := IFollow user @ [b]\<rparr>) (users d)
                          else users d)
               in if a \<notin> set (FollowsMe followed)
                  then AList.update (NewKey ''User'' b 0 []) (followed\<lparr>FollowsMe := FollowsMe followed @ [a]\<rparr>) us1
                  else us1)\<rparr>"
    by blast
  have du: "distinct (IFollow user) \<and> distinct (FollowsMe user)"
    and df: "distinct (IFollow followed) \<and> distinct (FollowsMe followed)"
    using g1 g2 inv by (auto dest!: Get_InrD dest: no_duplicates_lookup)
  let ?us1 = "if b \<notin> set (IFollow user)
             then AList.update (NewKey ''User'' a 0 []) (user\<lparr>IFollow := IFollow user @ [b]\<rparr>) (users d)
             else users d"
  have i0: "?P (users d)" using inv by (simp add: no_duplicates_def)
  have i1: "?P ?us1"
    using i0 du by (simp add: no_duplicates_update)
  let ?us2 = "if a \<notin> set (FollowsMe followed)
             then AList.update (NewKey ''User'' b 0 []) (followed\<lparr>FollowsMe := FollowsMe followed @ [a]\<rparr>) ?us1
             else ?us1"
  have i2: "?P ?us2"
  proof (cases "a \<notin> set (FollowsMe followed)")
    case True
    then show ?thesis using no_duplicates_update [OF i1, of "followed\<lparr>FollowsMe := FollowsMe followed @ [a]\<rparr>"] df
      by simp
  next
    case False
    then show ?thesis using i1 by simp
  qed
  have "users d' = ?us2" unfolding d' by (simp add: Let_def)
  with i2 show ?thesis by (simp add: no_duplicates_def)
qed

text \<open>The invariant across one call, on any two ids and in any request.\<close>

lemma followById_no_duplicates:
  "no_duplicates (ds w) \<Longrightarrow> no_duplicates (ds (snd (followById cx a b w)))"
  using followById_tx_no_duplicates [of "ds w" a b cx]
  by (cases "fst (followById_tx a b cx (ds w))") (auto simp: followById_ds)

subsection \<open>Following by id\<close>

lemma followById_calls_noop:
  assumes ab: "a \<noteq> b"
    and ua: "map_of (users d) (NewKey ''User'' a 0 []) = Some user" "b \<in> set (IFollow user)"
    and ub: "map_of (users d) (NewKey ''User'' b 0 []) = Some followed" "a \<in> set (FollowsMe followed)"
  shows "ds w = d \<Longrightarrow> ds (followById_calls cxs a b w) = d"
proof (induction cxs arbitrary: w)
  case Nil
  then show ?case by (simp add: followById_calls_def)
next
  case (Cons cx cxs)
  have "ds (snd (followById cx a b w)) = d"
    using followById_noop [OF ab ua ub Cons.prems] .
  from Cons.IH [OF this] show ?case by (simp add: followById_calls_def)
qed

lemma count_list_add_once:
  "count_list xs x \<le> 1 \<Longrightarrow> count_list (if x \<in> set xs then xs else xs @ [x]) x = 1"
  using count_list_0_iff [of xs x] by (cases "x \<in> set xs") auto

lemma followById_calls_Cons:
  "followById_calls (cx # cxs) a b w = followById_calls cxs a b (snd (followById cx a b w))"
  by (simp add: followById_calls_def)

lemma followById_calls_failing:
  fixes w w' :: "'r World"
  assumes "fst (followById cx a b w) \<noteq> None"
  shows "ds w' = ds w \<Longrightarrow> ds (followById_calls (replicate n cx) a b w') = ds w"
proof (induction n arbitrary: w')
  case 0
  then show ?case by (simp add: followById_calls_def)
next
  case (Suc n)
  have "fst (followById cx a b w') \<noteq> None"
    using assms Suc.prems by (simp add: followById_ok)
  then have "ds (snd (followById cx a b w')) = ds w"
    using followById_fail_same [of cx a b w'] Suc.prems by simp
  from Suc.IH [OF this] show ?case by (simp add: followById_calls_Cons)
qed

lemma followById_calls_after_success:
  assumes "a \<noteq> b" and "fst (followById cx a b w) = None"
  shows "ds (followById_calls (cx # cxs) a b w) = ds (snd (followById cx a b w))"
proof -
  from followById_effect [OF assms] obtain user followed where
    m1: "map_of (users (ds (snd (followById cx a b w)))) (NewKey ''User'' a 0 []) =
           Some (user\<lparr>IFollow := if b \<in> set (IFollow user) then IFollow user else IFollow user @ [b]\<rparr>)"
    and m2: "map_of (users (ds (snd (followById cx a b w)))) (NewKey ''User'' b 0 []) =
           Some (followed\<lparr>FollowsMe := if a \<in> set (FollowsMe followed) then FollowsMe followed
                                          else FollowsMe followed @ [a]\<rparr>)"
    by blast
  have "ds (followById_calls cxs a b (snd (followById cx a b w))) = ds (snd (followById cx a b w))"
    by (rule followById_calls_noop [OF assms(1) m1 _ m2]) auto
  then show ?thesis by (simp add: followById_calls_Cons)
qed

lemma followById_same_context:
  assumes "a \<noteq> b"
  shows "ds (followById_calls (replicate (Suc n) cx) a b w) = ds (snd (followById cx a b w))"
proof (cases "fst (followById cx a b w) = None")
  case True
  from followById_calls_after_success [OF assms True, of "replicate n cx"] show ?thesis by simp
next
  case False
  then have s: "ds (snd (followById cx a b w)) = ds w"
    using followById_fail_same [of cx a b w] by simp
  from followById_calls_failing [OF False s, of n] show ?thesis
    by (simp add: followById_calls_Cons s)
qed

text \<open>
  On two different user ids, calling \<^verbatim>\<open>followById\<close> one or more times under the same
  conditions leaves the datastore as one call leaves it. Once a call has succeeded, any
  further calls, whatever fails in them, leave the datastore as that call left it; the
  followed id is then in \<^verbatim>\<open>IFollow\<close> exactly once if it was there at most once before,
  and the follower in \<^verbatim>\<open>FollowsMe\<close> exactly once if it was there at most once before.
\<close>

lemma followById_idempotent_distinct:
  assumes "userID \<noteq> followingID"
  shows "ds (followById_calls (replicate (Suc n) cx) userID followingID w)
           = ds (snd (followById cx userID followingID w))
       \<and> (fst (followById cx userID followingID w) = None \<longrightarrow>
            ds (followById_calls (cx # cxs) userID followingID w)
              = ds (snd (followById cx userID followingID w))
          \<and> (\<exists>user0 followed0 user followed.
                map_of (users (ds w)) (NewKey ''User'' userID 0 []) = Some user0
              \<and> map_of (users (ds w)) (NewKey ''User'' followingID 0 []) = Some followed0
              \<and> map_of (users (ds (followById_calls (cx # cxs) userID followingID w)))
                   (NewKey ''User'' userID 0 []) = Some user
              \<and> map_of (users (ds (followById_calls (cx # cxs) userID followingID w)))
                   (NewKey ''User'' followingID 0 []) = Some followed
              \<and> (count_list (IFollow user0) followingID \<le> 1 \<longrightarrow>
                   count_list (IFollow user) followingID = 1)
              \<and> (count_list (FollowsMe followed0) userID \<le> 1 \<longrightarrow>
                   count_list (FollowsMe followed) userID = 1)))"
proof (intro conjI impI)
  show "ds (followById_calls (replicate (Suc n) cx) userID followingID w)
           = ds (snd (followById cx userID followingID w))"
    using assms by (rule followById_same_context)
next
  assume ok: "fst (followById cx userID followingID w) = None"
  show eq: "ds (followById_calls (cx # cxs) userID followingID w)
              = ds (snd (followById cx userID followingID w))"
    using assms ok by (rule followById_calls_after_success)
  from followById_effect [OF assms ok] obtain user0 followed0 where
    l1: "map_of (users (ds w)) (NewKey ''User'' userID 0 []) = Some user0" and
    l2: "map_of (users (ds w)) (NewKey ''User'' followingID 0 []) = Some followed0" and
    m1: "map_of (users (ds (snd (followById cx userID followingID w)))) (NewKey ''User'' userID 0 []) =
           Some (user0\<lparr>IFollow := if followingID \<in> set (IFollow user0) then IFollow user0
                                    else IFollow user0 @ [followingID]\<rparr>)" and
    m2: "map_of (users (ds (snd (followById cx userID followingID w)))) (NewKey ''User'' followingID 0 []) =
           Some (followed0\<lparr>FollowsMe := if userID \<in> set (FollowsMe followed0) then FollowsMe followed0
                                          else FollowsMe followed0 @ [userID]\<rparr>)"
    by blast
  let ?user = "user0\<lparr>IFollow := if followingID \<in> set (IFollow user0) then IFollow user0
                                    else IFollow user0 @ [followingID]\<rparr>"
  let ?followed = "followed0\<lparr>FollowsMe := if userID \<in> set (FollowsMe followed0) then FollowsMe followed0
                                          else FollowsMe followed0 @ [userID]\<rparr>"
  have c1: "count_list (IFollow user0) followingID \<le> 1 \<longrightarrow> count_list (IFollow ?user) followingID = 1"
    using count_list_add_once [of "IFollow user0" followingID] by simp
  have c2: "count_list (FollowsMe followed0) userID \<le> 1 \<longrightarrow> count_list (FollowsMe ?followed) userID = 1"
    using count_list_add_once [of "FollowsMe followed0" userID] by simp
  have "map_of (users (ds w)) (NewKey ''User'' userID 0 []) = Some user0
              \<and> map_of (users (ds w)) (NewKey ''User'' followingID 0 []) = Some followed0
              \<and> map_of (users (ds (followById_calls (cx # cxs) userID followingID w)))
                   (NewKey ''User'' userID 0 []) = Some ?user
              \<and> map_of (users (ds (followById_calls (cx # cxs) userID followingID w)))
                   (NewKey ''User'' followingID 0 []) = Some ?followed
              \<and> (count_list (IFollow user0) followingID \<le> 1 \<longrightarrow>
                   count_list (IFollow ?user) followingID = 1)
              \<and> (count_list (FollowsMe followed0) userID \<le> 1 \<longrightarrow>
                   count_list (FollowsMe ?followed) userID = 1)"
    using l1 l2 m1 m2 c1 c2 unfolding eq by (intro conjI)
  then show "\<exists>user0 followed0 user followed.
                map_of (users (ds w)) (NewKey ''User'' userID 0 []) = Some user0
              \<and> map_of (users (ds w)) (NewKey ''User'' followingID 0 []) = Some followed0
              \<and> map_of (users (ds (followById_calls (cx # cxs) userID followingID w)))
                   (NewKey ''User'' userID 0 []) = Some user
              \<and> map_of (users (ds (followById_calls (cx # cxs) userID followingID w)))
                   (NewKey ''User'' followingID 0 []) = Some followed
              \<and> (count_list (IFollow user0) followingID \<le> 1 \<longrightarrow>
                   count_list (IFollow user) followingID = 1)
              \<and> (count_list (FollowsMe followed0) userID \<le> 1 \<longrightarrow>
                   count_list (FollowsMe followed) userID = 1)"
    by blast
qed

text \<open>Ann following Bob, in three calls, the second of which fails to commit.\<close>

lemma followById_idempotent_example:
  "ds (followById_calls (replicate (Suc 2) healthy) ''ann'' ''bob'' example_world)
     = ds (snd (followById healthy ''ann'' ''bob'' example_world))
   \<and> ds (followById_calls [healthy, healthy\<lparr>commit_fails := True\<rparr>, healthy] ''ann'' ''bob'' example_world)
       = ds (snd (followById healthy ''ann'' ''bob'' example_world))
   \<and> (\<exists>user followed.
         map_of (users (ds (followById_calls [healthy, healthy\<lparr>commit_fails := True\<rparr>, healthy]
                              ''ann'' ''bob'' example_world))) (NewKey ''User'' ''ann'' 0 []) = Some user
       \<and> map_of (users (ds (followById_calls [healthy, healthy\<lparr>commit_fails := True\<rparr>, healthy]
                              ''ann'' ''bob'' example_world))) (NewKey ''User'' ''bob'' 0 []) = Some followed
       \<and> count_list (IFollow user) ''bob'' = 1
       \<and> count_list (FollowsMe followed) ''ann'' = 1)"
proof -
  let ?wN = "followById_calls [healthy, healthy\<lparr>commit_fails := True\<rparr>, healthy] ''ann'' ''bob''
               example_world"
  have h1: "''ann'' \<noteq> ''bob''" by simp
  have h2: "fst (followById healthy ''ann'' ''bob'' example_world) = None" by code_simp
  have a: "map_of (users (ds example_world)) (NewKey ''User'' ''ann'' 0 []) = Some ann" by code_simp
  have b: "map_of (users (ds example_world)) (NewKey ''User'' ''bob'' 0 []) = Some bob" by code_simp
  have ca: "count_list (IFollow ann) ''bob'' \<le> 1" by code_simp
  have cb: "count_list (FollowsMe bob) ''ann'' \<le> 1" by code_simp
  from followById_idempotent_distinct [OF h1, of 2 healthy example_world
         "[healthy\<lparr>commit_fails := True\<rparr>, healthy]"] h2
  obtain user0 followed0 user followed where
    e: "ds (followById_calls (replicate (Suc 2) healthy) ''ann'' ''bob'' example_world)
             = ds (snd (followById healthy ''ann'' ''bob'' example_world))" and
    f: "ds ?wN = ds (snd (followById healthy ''ann'' ''bob'' example_world))" and
    l1: "map_of (users (ds example_world)) (NewKey ''User'' ''ann'' 0 []) = Some user0" and
    l2: "map_of (users (ds example_world)) (NewKey ''User'' ''bob'' 0 []) = Some followed0" and
    m1: "map_of (users (ds ?wN)) (NewKey ''User'' ''ann'' 0 []) = Some user" and
    m2: "map_of (users (ds ?wN)) (NewKey ''User'' ''bob'' 0 []) = Some followed" and
    c1: "count_list (IFollow user0) ''bob'' \<le> 1 \<longrightarrow> count_list (IFollow user) ''bob'' = 1" and
    c2: "count_list (FollowsMe followed0) ''ann'' \<le> 1 \<longrightarrow> count_list (FollowsMe followed) ''ann'' = 1"
    by blast
  have "user0 = ann" "followed0 = bob" using a b l1 l2 by simp_all
  with c1 c2 ca cb have "count_list (IFollow user) ''bob'' = 1" "count_list (FollowsMe followed) ''ann'' = 1"
    by simp_all
  with e f m1 m2 show ?thesis by blast
qed

lemma distinct_count_list_le: "distinct xs \<Longrightarrow> count_list xs x \<le> 1"
  by (induction xs) (auto simp: count_list_0_iff)

text \<open>
  So on two different ids and a store without duplicates, once a call has succeeded the
  datastore stays as it is under further calls, and each id is in the other's list exactly
  once.
\<close>

lemma followById_idempotent_invariant:
  assumes ab: "userID \<noteq> followingID"
    and inv: "no_duplicates (ds w)"
    and ok: "fst (followById cx userID followingID w) = None"
  shows "ds (followById_calls (cx # cxs) userID followingID w)
           = ds (snd (followById cx userID followingID w))
       \<and> (\<exists>user followed.
              map_of (users (ds (followById_calls (cx # cxs) userID followingID w)))
                (NewKey ''User'' userID 0 []) = Some user
            \<and> map_of (users (ds (followById_calls (cx # cxs) userID followingID w)))
                (NewKey ''User'' followingID 0 []) = Some followed
            \<and> count_list (IFollow user) followingID = 1
            \<and> count_list (FollowsMe followed) userID = 1)"
proof -
  from followById_idempotent_distinct [OF ab, of 0 cx w cxs] ok
  obtain user0 followed0 user followed where
    e: "ds (followById_calls (cx # cxs) userID followingID w)
           = ds (snd (followById cx userID followingID w))" and
    l1: "map_of (users (ds w)) (NewKey ''User'' userID 0 []) = Some user0" and
    l2: "map_of (users (ds w)) (NewKey ''User'' followingID 0 []) = Some followed0" and
    m1: "map_of (users (ds (followById_calls (cx # cxs) userID followingID w)))
           (NewKey ''User'' userID 0 []) = Some user" and
    m2: "map_of (users (ds (followById_calls (cx # cxs) userID followingID w)))
           (NewKey ''User'' followingID 0 []) = Some followed" and
    c1: "count_list (IFollow user0) followingID \<le> 1 \<longrightarrow> count_list (IFollow user) followingID = 1" and
    c2: "count_list (FollowsMe followed0) userID \<le> 1 \<longrightarrow> count_list (FollowsMe followed) userID = 1"
    by blast
  have "count_list (IFollow user0) followingID \<le> 1"
    using no_duplicates_lookup [OF inv l1] by (intro distinct_count_list_le) simp
  moreover have "count_list (FollowsMe followed0) userID \<le> 1"
    using no_duplicates_lookup [OF inv l2] by (intro distinct_count_list_le) simp
  ultimately have "count_list (IFollow user) followingID = 1"
    "count_list (FollowsMe followed) userID = 1"
    using c1 c2 by blast+
  with e m1 m2 show ?thesis by blast
qed

text \<open>
  C1 fails on the code for a user who follows herself. Both structs of the call are read
  from the one entity; the call appends her id to \<^verbatim>\<open>IFollow\<close> of the first and stores
  it, then stores the second, which replaces the first. After one successful call her id
  is in \<^verbatim>\<open>FollowsMe\<close> and not in \<^verbatim>\<open>IFollow\<close>, and a second call changes the store
  again. The handler \<^verbatim>\<open>FollowByID\<close> reaches this with the caller's own id.
\<close>

theorem followById_self_follow:
  "no_duplicates (ds example_world)
   \<and> fst (followById healthy ''ann'' ''ann'' example_world) = None
   \<and> map_of (users (ds (snd (followById healthy ''ann'' ''ann'' example_world))))
        (NewKey ''User'' ''ann'' 0 []) = Some (ann\<lparr>FollowsMe := [''ann'']\<rparr>)
   \<and> count_list (IFollow (ann\<lparr>FollowsMe := [''ann'']\<rparr>)) ''ann'' = 0
   \<and> map_of (users (ds (followById_calls [healthy, healthy] ''ann'' ''ann'' example_world)))
        (NewKey ''User'' ''ann'' 0 []) = Some (ann\<lparr>FollowsMe := [''ann''], IFollow := [''ann'']\<rparr>)
   \<and> ds (followById_calls [healthy, healthy] ''ann'' ''ann'' example_world)
        \<noteq> ds (snd (followById healthy ''ann'' ''ann'' example_world))
   \<and> ds (snd (FollowByID healthy \<lparr>ID = ''ann''\<rparr> (\<lambda>n. ''ann'') example_world))
        = ds (snd (followById healthy ''ann'' ''ann'' example_world))"
  by code_simp

text \<open>
  C4. If either id does not resolve to a User entity, \<^verbatim>\<open>followById\<close> returns an error,
  leaves the whole datastore as it was and enqueues no task.
\<close>

theorem followById_unresolved_no_writes:
  assumes "\<not> resolves cx userID (ds w) \<or> \<not> resolves cx followingID (ds w)"
  shows "fst (followById cx userID followingID w) \<noteq> None
       \<and> ds (snd (followById cx userID followingID w)) = ds w
       \<and> tasks (snd (followById cx userID followingID w)) = tasks w"
  using assms by (rule followById_missing)

theorem followById_unresolved_no_writes_witness:
  "fst (followById healthy ''ann'' ''zed'' example_world) \<noteq> None
   \<and> ds (snd (followById healthy ''ann'' ''zed'' example_world)) = ds example_world
   \<and> tasks (snd (followById healthy ''ann'' ''zed'' example_world)) = tasks example_world"
proof -
  have "\<not> resolves healthy ''ann'' (ds example_world) \<or> \<not> resolves healthy ''zed'' (ds example_world)"
    by code_simp
  then show ?thesis by (rule followById_unresolved_no_writes)
qed

lemma absent_unresolved:
  "map_of (users d) (NewKey ''User'' userID 0 []) = None \<Longrightarrow> \<not> resolves cx userID d"
  by (simp add: resolves_def Get_def)

subsection \<open>Queries by e-mail address\<close>

lemma TrimSpace_Email: "TrimSpace ''Email ='' = ''Email =''"
  by (simp add: TrimSpace_def isSpace_def)

lemma TrimSpace_IWantToFollow: "TrimSpace ''IWantToFollow ='' = ''IWantToFollow =''"
  by (simp add: TrimSpace_def isSpace_def)

lemma Filter_Email:
  "Filter ''Email ='' v q = q\<lparr>q_filter := q_filter q @ [(''Email'', OpEqual, v)]\<rparr>"
  by (simp add: Filter_def TrimSpace_Email TrimRight_def Let_def)
     (simp add: TrimSpace_def isSpace_def parse_operator_def)

lemma Filter_empty: "q_err (Filter [] v q) = Some ErrInvalidFilter"
  by (simp add: Filter_def TrimSpace_def)

lemma insert_by_True: "insert_by (\<lambda>a b. True) x xs = x # xs"
  by (cases xs) simp_all

lemma sort_by_True: "sort_by (\<lambda>a b. True) xs = xs"
  by (induction xs) (simp_all add: sort_by_def insert_by_True)

lemma Filter_IWantToFollow:
  "Filter ''IWantToFollow ='' v q = q\<lparr>q_filter := q_filter q @ [(''IWantToFollow'', OpEqual, v)]\<rparr>"
  by (simp add: Filter_def TrimSpace_IWantToFollow TrimRight_def Let_def)
     (simp add: TrimSpace_def isSpace_def parse_operator_def)

lemma Order_Date: "Order ''-Date'' q = q\<lparr>q_order := q_order q @ [(''Date'', True)]\<rparr>"
  by (simp add: Order_def TrimSpace_def isSpace_def Let_def)

lemma filter_ok_Email:
  "filter_ok (props_User u) (''Email'', OpEqual, VStr email) \<longleftrightarrow> Email u = email"
  by (auto simp: filter_ok_def props_User_def list_ex_iff)

lemma filter_ok_IWantToFollow:
  "filter_ok (props_User u) (''IWantToFollow'', OpEqual, VStr email) \<longleftrightarrow> email \<in> set (IWantToFollow u)"
  by (auto simp: filter_ok_def props_User_def list_ex_iff)

lemma clearjunk_mem: "(k, v) \<in> set (AList.clearjunk al) \<longleftrightarrow> map_of al k = Some v"
  using AList.graph_map_of [of al] by (auto simp: Map.graph_def)

lemma GetAll_IWantToFollow:
  "GetAll props_User cx (KeysOnly (Filter ''IWantToFollow ='' (VStr email) (NewQuery ''User''))) tab =
     (if query_fails cx ''User'' then ([], Some ErrInternal)
      else (filter (\<lambda>(k, u). Kind k = ''User'' \<and> email \<in> set (IWantToFollow u))
              (AList.clearjunk tab), None))"
  by (simp add: Filter_IWantToFollow GetAll_def KeysOnly_def NewQuery_def has_ancestor_def
       apply_limit_def sort_by_True case_prod_unfold filter_ok_IWantToFollow)

lemma GetAll_Email:
  "GetAll props_User cx (KeysOnly (Filter ''Email ='' (VStr email) (NewQuery ''User''))) tab =
     (if query_fails cx ''User'' then ([], Some ErrInternal)
      else (filter (\<lambda>(k, u). Kind k = ''User'' \<and> Email u = email) (AList.clearjunk tab), None))"
  by (simp add: Filter_Email GetAll_def KeysOnly_def NewQuery_def has_ancestor_def
       apply_limit_def sort_by_True case_prod_unfold filter_ok_Email)

lemma foldl_Call:
  "foldl (\<lambda>w1 key. Call name (f key) w1) w ks =
     w\<lparr>tasks := tasks w @ map (\<lambda>key. Task name (f key)) ks\<rparr>"
  by (induction ks arbitrary: w) (simp_all add: Call_def)

lemma findFollows_eq:
  "findFollows cx userID email w =
     (if query_fails cx ''User'' then (Some (Errorf ''findFollows: GetAll %v'' ErrInternal), w)
      else (None, w\<lparr>tasks := tasks w @
              map (\<lambda>key. Task ''followById'' [StringID key, userID])
                (map fst (filter (\<lambda>(k, u). Kind k = ''User'' \<and> email \<in> set (IWantToFollow u))
                            (AList.clearjunk (users (ds w)))))\<rparr>))"
  using foldl_Call [of "''followById''" "\<lambda>key. [StringID key, userID]" w]
  by (simp add: findFollows_def GetAll_IWantToFollow)

lemma distinct_keys_filter_clearjunk: "distinct (map fst (filter P (AList.clearjunk tab)))"
  by (simp add: distinct_map_filter)

lemma set_keys_filter_clearjunk:
  "set (map fst (filter (\<lambda>(k, u). P k u) (AList.clearjunk tab))) =
     {k. \<exists>u. map_of tab k = Some u \<and> P k u}"
  by (auto simp: clearjunk_mem image_iff)

text \<open>
  C5. When the membership query fails, \<^verbatim>\<open>findFollows\<close> returns an error and changes
  nothing. Otherwise it returns no error and appends to the task queue exactly one
  \<^verbatim>\<open>followById(matched, userID)\<close> task for each stored User whose \<^verbatim>\<open>IWantToFollow\<close>
  holds the e-mail address, and none for any other.
\<close>

theorem findFollows_fan_out:
  "(query_fails cx ''User'' \<longrightarrow>
      fst (findFollows cx userID email w) \<noteq> None \<and> snd (findFollows cx userID email w) = w)
   \<and> (\<not> query_fails cx ''User'' \<longrightarrow>
      fst (findFollows cx userID email w) = None
      \<and> ds (snd (findFollows cx userID email w)) = ds w
      \<and> (\<exists>ks. tasks (snd (findFollows cx userID email w)) =
                 tasks w @ map (\<lambda>key. Task ''followById'' [StringID key, userID]) ks
             \<and> distinct ks
             \<and> set ks = {k. \<exists>u. map_of (users (ds w)) k = Some u \<and> Kind k = ''User''
                                 \<and> email \<in> set (IWantToFollow u)}))"
proof -
  let ?ks = "map fst (filter (\<lambda>(k, u). Kind k = ''User'' \<and> email \<in> set (IWantToFollow u))
                            (AList.clearjunk (users (ds w))))"
  have d: "distinct ?ks" by (rule distinct_keys_filter_clearjunk)
  have s: "set ?ks = {k. \<exists>u. map_of (users (ds w)) k = Some u \<and> Kind k = ''User''
                                 \<and> email \<in> set (IWantToFollow u)}"
    by (rule set_keys_filter_clearjunk)
  show ?thesis
  proof (cases "query_fails cx ''User''")
    case True
    then show ?thesis by (simp add: findFollows_eq)
  next
    case False
    have "tasks (snd (findFollows cx userID email w)) =
                 tasks w @ map (\<lambda>key. Task ''followById'' [StringID key, userID]) ?ks"
      using False by (simp add: findFollows_eq)
    with d s have "\<exists>ks. tasks (snd (findFollows cx userID email w)) =
                 tasks w @ map (\<lambda>key. Task ''followById'' [StringID key, userID]) ks
             \<and> distinct ks
             \<and> set ks = {k. \<exists>u. map_of (users (ds w)) k = Some u \<and> Kind k = ''User''
                                 \<and> email \<in> set (IWantToFollow u)}"
      by blast
    then show ?thesis using False by (simp add: findFollows_eq)
  qed
qed

theorem findFollows_fan_out_witness:
  "fst (findFollows healthy ''cy'' ''cy@example.com'' example_world) = None
   \<and> ds (snd (findFollows healthy ''cy'' ''cy@example.com'' example_world)) = ds example_world
   \<and> (\<exists>ks. tasks (snd (findFollows healthy ''cy'' ''cy@example.com'' example_world)) =
              tasks example_world @ map (\<lambda>key. Task ''followById'' [StringID key, ''cy'']) ks
          \<and> distinct ks
          \<and> set ks = {k. \<exists>u. map_of (users (ds example_world)) k = Some u \<and> Kind k = ''User''
                                 \<and> ''cy@example.com'' \<in> set (IWantToFollow u)})
   \<and> fst (findFollows (healthy\<lparr>query_fails := (\<lambda>k. True)\<rparr>) ''cy'' ''cy@example.com'' example_world)
        \<noteq> None
   \<and> snd (findFollows (healthy\<lparr>query_fails := (\<lambda>k. True)\<rparr>) ''cy'' ''cy@example.com'' example_world)
        = example_world"
  using findFollows_fan_out [of healthy "''cy''" "''cy@example.com''" example_world]
    findFollows_fan_out [of "healthy\<lparr>query_fails := (\<lambda>k. True)\<rparr>" "''cy''" "''cy@example.com''"
      example_world]
  by (simp add: healthy_def)

lemma findFollows_example:
  "tasks (snd (findFollows healthy ''cy'' ''cy@example.com'' example_world)) =
     [Task ''followById'' [''ann'', ''cy'']]"
  by code_simp

subsection \<open>Following by e-mail address\<close>

lemma Follow_tx_Inr:
  assumes "Get cx (NewKey ''User'' userID 0 []) (users d) = Inr user"
  shows "fst (Follow_tx userID email cx d) =
           (if email \<in> set (IWantToFollow user) then Inr d
            else if put_fails cx (NewKey ''User'' userID 0 []) then Inl ErrInternal
            else Inr (d\<lparr>users := AList.update (NewKey ''User'' userID 0 [])
                                  (user\<lparr>IWantToFollow := IWantToFollow user @ [email]\<rparr>) (users d)\<rparr>))"
  using assms Get_InrD [OF assms] Get_complete [OF assms, of "alloc_id cx"]
  by (simp add: Follow_tx_def findUser_def uniqueP_iff Put_def)

lemma Follow_tx_no_duplicates:
  assumes inv: "no_duplicates d" and tx: "fst (Follow_tx userID email cx d) = Inr d'"
  shows "no_duplicates d'"
proof -
  from tx obtain user where g: "Get cx (NewKey ''User'' userID 0 []) (users d) = Inr user"
    by (auto simp: Follow_tx_def findUser_def split: sum.splits)
  have du: "distinct (IFollow user) \<and> distinct (FollowsMe user)"
    using g inv by (auto dest!: Get_InrD dest: no_duplicates_lookup)
  have i0: "list_all (\<lambda>(k, u). distinct (IFollow u) \<and> distinct (FollowsMe u)) (users d)"
    using inv by (simp add: no_duplicates_def)
  from tx show ?thesis
    unfolding Follow_tx_Inr [OF g]
    using inv du no_duplicates_update [OF i0, of "user\<lparr>IWantToFollow := IWantToFollow user @ [email]\<rparr>" "NewKey ''User'' userID 0 []"]
    by (auto simp: no_duplicates_def split: if_splits)
qed

lemma ds_after_log [simp]:
  "ds (Errorf_log m w) = ds w" "ds (Infof_log m w) = ds w" "ds (Call n a w) = ds w"
  by (simp_all add: Errorf_log_def Infof_log_def Call_def)

lemma RunInTransaction_no_duplicates:
  assumes "\<And>d'. fst (f cx (ds w)) = Inr d' \<Longrightarrow> no_duplicates d'" and "no_duplicates (ds w)"
  shows "no_duplicates (ds (snd (RunInTransaction cx f w)))"
  using assms by (cases "fst (f cx (ds w))") (auto simp: RunInTransaction_ds)

lemma snd_case_option_prod:
  "snd (case x of (Some err, w2) \<Rightarrow> (r, g w2) | (None, w2) \<Rightarrow> (r, w2)) =
     (case fst x of Some err \<Rightarrow> g (snd x) | None \<Rightarrow> snd x)"
  by (cases x) (auto split: option.splits)

lemma Follow_ds_cases:
  fixes w :: "'r World"
  shows "ds (snd (Follow decodeSegment cx acc p w)) = ds w
   \<or> (\<exists>(w1 :: 'r World) b. ds w1 = ds w
         \<and> ds (snd (Follow decodeSegment cx acc p w)) = ds (snd (followById cx (ID acc) b w1)))
   \<or> (\<exists>(w1 :: 'r World) email. ds w1 = ds w
         \<and> ds (snd (Follow decodeSegment cx acc p w)) =
             ds (snd (RunInTransaction cx (Follow_tx (ID acc) email) w1)))"
proof (cases "decodeSegment (p ''email'')")
  case (Inl e)
  then show ?thesis by (simp add: Follow_def)
next
  case (Inr email)
  obtain res qerr where q: "GetAll props_User cx
             (KeysOnly (Filter ''Email ='' (VStr email) (NewQuery ''User''))) (users (ds w)) = (res, qerr)"
    by (cases "GetAll props_User cx
             (KeysOnly (Filter ''Email ='' (VStr email) (NewQuery ''User''))) (users (ds w))")
  show ?thesis
  proof (cases qerr)
    case (Some e)
    then show ?thesis using Inr q by (simp add: Follow_def)
  next
    case None
    show ?thesis
    proof (cases "res = []")
      case True
      let ?w1 = "Infof_log ''Follow - NOT FOUND %v'' w"
      have "ds (snd (Follow decodeSegment cx acc p w)) =
             ds (snd (RunInTransaction cx (Follow_tx (ID acc) email) ?w1))"
        using Inr q None True
        by (simp add: Follow_def DEBUG_def snd_case_option_prod split: option.splits)
      moreover have "ds ?w1 = ds w" by simp
      ultimately show ?thesis by blast
    next
      case False
      let ?w1 = "Infof_log ''Follow - Found: (%v) %v %v'' w"
      have "ds (snd (Follow decodeSegment cx acc p w)) =
             ds (snd (followById cx (ID acc) (StringID (map fst res ! 0)) ?w1))"
        using Inr q None False
        by (simp add: Follow_def DEBUG_def snd_case_option_prod split: option.splits)
      moreover have "ds ?w1 = ds w" by simp
      ultimately show ?thesis by blast
    qed
  qed
qed

lemma Follow_no_duplicates:
  fixes w :: "'r World"
  assumes "no_duplicates (ds w)"
  shows "no_duplicates (ds (snd (Follow decodeSegment cx acc p w)))"
proof -
  consider
    (same) "ds (snd (Follow decodeSegment cx acc p w)) = ds w"
  | (byId) w1 :: "'r World" and b where "ds w1 = ds w"
      "ds (snd (Follow decodeSegment cx acc p w)) = ds (snd (followById cx (ID acc) b w1))"
  | (intent) w1 :: "'r World" and email where "ds w1 = ds w"
      "ds (snd (Follow decodeSegment cx acc p w)) =
         ds (snd (RunInTransaction cx (Follow_tx (ID acc) email) w1))"
    using Follow_ds_cases [of decodeSegment cx acc p w] by blast
  then show ?thesis
  proof cases
    case same
    then show ?thesis using assms by simp
  next
    case byId
    have "no_duplicates (ds (snd (followById cx (ID acc) b w1)))"
      by (rule followById_no_duplicates) (simp add: byId(1) assms)
    then show ?thesis by (simp add: byId(2))
  next
    case intent
    have "no_duplicates (ds (snd (RunInTransaction cx (Follow_tx (ID acc) email) w1)))"
    proof (rule RunInTransaction_no_duplicates)
      show "no_duplicates (ds w1)" by (simp add: intent(1) assms)
    next
      fix d' assume "fst (Follow_tx (ID acc) email cx (ds w1)) = Inr d'"
      then show "no_duplicates d'"
        using Follow_tx_no_duplicates [of "ds w1"] by (simp add: intent(1) assms)
    qed
    then show ?thesis by (simp add: intent(2))
  qed
qed

lemma FollowByID_ds: "ds (snd (FollowByID cx acc p w)) = ds (snd (followById cx (ID acc) (p ''personid'') w))"
  by (cases "followById cx (ID acc) (p ''personid'') w")
     (auto simp: FollowByID_def split: option.splits)

lemma followById_tx_record:
  assumes tx: "fst (followById_tx a b cx d) = Inr d'"
    and k: "map_of (users d) k = Some u" and u: "duplicate_free u"
  shows "\<exists>u'. map_of (users d') k = Some u' \<and> duplicate_free u'"
proof -
  from followById_tx_InrD [OF tx] obtain user followed where
    g1: "Get cx (NewKey ''User'' a 0 []) (users d) = Inr user" and
    g2: "Get cx (NewKey ''User'' b 0 []) (users d) = Inr followed" and
    d': "d' = d\<lparr>users :=
              (let us1 = (if b \<notin> set (IFollow user)
                          then AList.update (NewKey ''User'' a 0 []) (user\<lparr>IFollow := IFollow user @ [b]\<rparr>) (users d)
                          else users d)
               in if a \<notin> set (FollowsMe followed)
                  then AList.update (NewKey ''User'' b 0 []) (followed\<lparr>FollowsMe := FollowsMe followed @ [a]\<rparr>) us1
                  else us1)\<rparr>"
    by blast
  have m1: "map_of (users d) (NewKey ''User'' a 0 []) = Some user"
    and m2: "map_of (users d) (NewKey ''User'' b 0 []) = Some followed"
    using g1 g2 by (auto dest: Get_InrD)
  show ?thesis
    using k u m1 m2 unfolding d'
    by (auto simp: Let_def AList.update_conv' duplicate_free_def)
qed

lemma followById_record:
  assumes "map_of (users (ds w)) k = Some u" and "duplicate_free u"
  shows "\<exists>u'. map_of (users (ds (snd (followById cx a b w)))) k = Some u' \<and> duplicate_free u'"
proof (cases "fst (followById_tx a b cx (ds w))")
  case (Inl e)
  then show ?thesis using assms by (simp add: followById_ds)
next
  case (Inr d')
  from followById_tx_record [OF Inr assms] show ?thesis
    using assms Inr by (simp add: followById_ds)
qed

lemma Follow_tx_record:
  assumes tx: "fst (Follow_tx userID email cx d) = Inr d'"
    and k: "map_of (users d) k = Some u" and u: "duplicate_free u"
  shows "\<exists>u'. map_of (users d') k = Some u' \<and> duplicate_free u'"
proof -
  from tx obtain user where g: "Get cx (NewKey ''User'' userID 0 []) (users d) = Inr user"
    by (auto simp: Follow_tx_def findUser_def split: sum.splits)
  have m: "map_of (users d) (NewKey ''User'' userID 0 []) = Some user"
    using g by (auto dest: Get_InrD)
  from tx show ?thesis
    unfolding Follow_tx_Inr [OF g]
    using k u m by (auto simp: AList.update_conv' duplicate_free_def split: if_splits)
qed

lemma Follow_record:
  fixes w :: "'r World"
  assumes "map_of (users (ds w)) k = Some u" and "duplicate_free u"
  shows "\<exists>u'. map_of (users (ds (snd (Follow decodeSegment cx acc p w)))) k = Some u' \<and> duplicate_free u'"
proof -
  consider
    (same) "ds (snd (Follow decodeSegment cx acc p w)) = ds w"
  | (byId) w1 :: "'r World" and b where "ds w1 = ds w"
      "ds (snd (Follow decodeSegment cx acc p w)) = ds (snd (followById cx (ID acc) b w1))"
  | (intent) w1 :: "'r World" and email where "ds w1 = ds w"
      "ds (snd (Follow decodeSegment cx acc p w)) =
         ds (snd (RunInTransaction cx (Follow_tx (ID acc) email) w1))"
    using Follow_ds_cases [of decodeSegment cx acc p w] by blast
  then show ?thesis
  proof cases
    case same
    then show ?thesis using assms by auto
  next
    case byId
    have "\<exists>u'. map_of (users (ds (snd (followById cx (ID acc) b w1)))) k = Some u' \<and> duplicate_free u'"
      using followById_record [of w1 k u cx "ID acc" b] assms by (simp add: byId(1))
    then show ?thesis by (simp add: byId(2))
  next
    case intent
    show ?thesis
    proof (cases "fst (Follow_tx (ID acc) email cx (ds w1))")
      case (Inl e)
      then show ?thesis using assms intent by (simp add: RunInTransaction_ds)
    next
      case (Inr d')
      have "\<exists>u'. map_of (users d') k = Some u' \<and> duplicate_free u'"
        using Follow_tx_record [OF Inr, of k u] assms by (simp add: intent(1))
      then show ?thesis using assms intent Inr by (auto simp: RunInTransaction_ds)
    qed
  qed
qed

text \<open>
  C7. Having no duplicate in \<^verbatim>\<open>IFollow\<close> and \<^verbatim>\<open>FollowsMe\<close> is an invariant. A
  stored User record that is free of duplicates is still stored and free of duplicates
  after \<^verbatim>\<open>followById\<close> on any two ids, and after the two handlers that write User
  entities, \<^verbatim>\<open>FollowByID\<close> and \<^verbatim>\<open>Follow\<close>, whatever fails in the request; and
  if all stored Users are free of duplicates before, all are afterwards.
\<close>

theorem no_duplicates_invariant:
  "(map_of (users (ds w)) k = Some u \<and> duplicate_free u \<longrightarrow>
      (\<exists>u'. map_of (users (ds (snd (followById cx userID followingID w)))) k = Some u'
             \<and> duplicate_free u')
    \<and> (\<exists>u'. map_of (users (ds (snd (FollowByID cx acc p w)))) k = Some u' \<and> duplicate_free u')
    \<and> (\<exists>u'. map_of (users (ds (snd (Follow decodeSegment cx acc p w)))) k = Some u'
             \<and> duplicate_free u'))
   \<and> (no_duplicates (ds w) \<longrightarrow>
        no_duplicates (ds (snd (followById cx userID followingID w)))
      \<and> no_duplicates (ds (snd (FollowByID cx acc p w)))
      \<and> no_duplicates (ds (snd (Follow decodeSegment cx acc p w))))"
  using followById_record [of w k u cx userID followingID]
    followById_record [of w k u cx "ID acc" "p ''personid''"]
    Follow_record [of w k u decodeSegment cx acc p]
  by (simp add: followById_no_duplicates FollowByID_ds Follow_no_duplicates)

theorem no_duplicates_invariant_witness:
  "(\<exists>u'. map_of (users (ds (snd (followById healthy ''ann'' ''bob'' example_world))))
            (NewKey ''User'' ''bob'' 0 []) = Some u' \<and> duplicate_free u')
   \<and> no_duplicates (ds (snd (followById healthy ''ann'' ''bob'' example_world)))
   \<and> no_duplicates (ds (snd (FollowByID healthy \<lparr>ID = ''bob''\<rparr>
        (\<lambda>n. if n = ''personid'' then ''ann'' else ''ann@example.com'') example_world)))
   \<and> no_duplicates (ds (snd (Follow Inr healthy \<lparr>ID = ''bob''\<rparr>
        (\<lambda>n. if n = ''personid'' then ''ann'' else ''ann@example.com'') example_world)))"
proof -
  have h1: "map_of (users (ds example_world)) (NewKey ''User'' ''bob'' 0 []) = Some bob
              \<and> duplicate_free bob"
    by code_simp
  have h2: "no_duplicates (ds example_world)" by code_simp
  from no_duplicates_invariant [of example_world "NewKey ''User'' ''bob'' 0 []" bob healthy
      "''ann''" "''bob''" "\<lparr>ID = ''bob''\<rparr>"
      "\<lambda>n. if n = ''personid'' then ''ann'' else ''ann@example.com''" Inr] h1 h2
  show ?thesis by blast
qed

lemma filter_users_no_Email:
  assumes "list_all (\<lambda>(k, u). Email u \<noteq> email) tab"
  shows "filter (\<lambda>(k, u). Kind k = ''User'' \<and> Email u = email) (AList.clearjunk tab) = []"
proof -
  have "\<And>k u. (k, u) \<in> set (AList.clearjunk tab) \<Longrightarrow> (k, u) \<in> set tab"
    by (simp add: clearjunk_mem map_of_SomeD)
  with assms show ?thesis
    by (auto simp: filter_empty_conv list_all_iff)
qed

text \<open>
  C6. When no stored User has the e-mail address and the caller's record loads, \<^verbatim>\<open>Follow\<close>
  replies ok and, the datastore calls succeeding, leaves the datastore unchanged if the
  address is already in the caller's \<^verbatim>\<open>IWantToFollow\<close>; otherwise it stores the caller's
  record with the address appended to that list and nothing else changed.
\<close>

theorem Follow_records_intent:
  assumes "decodeSegment (p ''email'') = Inr email"
    and "\<not> query_fails cx ''User''"
    and "list_all (\<lambda>(k, u). Email u \<noteq> email) (users (ds w))"
    and "Get cx (NewKey ''User'' (ID acc) 0 []) (users (ds w)) = Inr user"
    and "\<not> put_fails cx (NewKey ''User'' (ID acc) 0 [])"
    and "\<not> commit_fails cx"
  shows "fst (Follow decodeSegment cx acc p w) = replyOk []
       \<and> tasks (snd (Follow decodeSegment cx acc p w)) = tasks w
       \<and> ds (snd (Follow decodeSegment cx acc p w)) =
           (if email \<in> set (IWantToFollow user) then ds w
            else (ds w)\<lparr>users := AList.update (NewKey ''User'' (ID acc) 0 [])
                   (user\<lparr>IWantToFollow := IWantToFollow user @ [email]\<rparr>) (users (ds w))\<rparr>)"
proof -
  let ?w1 = "Infof_log ''Follow - NOT FOUND %v'' w"
  let ?r = "RunInTransaction cx (Follow_tx (ID acc) email) ?w1"
  have q: "GetAll props_User cx
             (KeysOnly (Filter ''Email ='' (VStr email) (NewQuery ''User''))) (users (ds w)) = ([], None)"
    using assms(2) filter_users_no_Email [OF assms(3)] by (simp add: GetAll_Email)
  have F: "Follow decodeSegment cx acc p w =
             (case ?r of (Some err, w2) \<Rightarrow> (replyOk [], Errorf_log ''Follow: %v %v'' w2)
                       | (None, w2) \<Rightarrow> (replyOk [], w2))"
    using assms(1) q by (simp add: Follow_def DEBUG_def)
  have g: "Get cx (NewKey ''User'' (ID acc) 0 []) (users (ds ?w1)) = Inr user"
    using assms(4) by simp
  have tx: "fst (Follow_tx (ID acc) email cx (ds w)) =
           (if email \<in> set (IWantToFollow user) then Inr (ds w)
            else Inr ((ds w)\<lparr>users := AList.update (NewKey ''User'' (ID acc) 0 [])
                                  (user\<lparr>IWantToFollow := IWantToFollow user @ [email]\<rparr>) (users (ds w))\<rparr>))"
    using Follow_tx_Inr [OF assms(4), of email] assms(5) by simp
  have d: "ds (snd ?r) =
           (if email \<in> set (IWantToFollow user) then ds w
            else (ds w)\<lparr>users := AList.update (NewKey ''User'' (ID acc) 0 [])
                   (user\<lparr>IWantToFollow := IWantToFollow user @ [email]\<rparr>) (users (ds w))\<rparr>)"
    using assms(6) by (simp add: RunInTransaction_ds tx)
  have t: "tasks (snd ?r) = tasks w"
    by (cases "Follow_tx (ID acc) email cx (ds ?w1)")
       (auto simp: RunInTransaction_def Infof_log_def split: sum.splits)
  show ?thesis
    unfolding F using d t
    by (cases ?r) (auto simp: Errorf_log_def split: option.splits)
qed

theorem Follow_records_intent_witness:
  "fst (Follow Inr healthy \<lparr>ID = ''bob''\<rparr> (\<lambda>n. ''cy@example.com'') example_world) = replyOk []
   \<and> tasks (snd (Follow Inr healthy \<lparr>ID = ''bob''\<rparr> (\<lambda>n. ''cy@example.com'') example_world))
       = tasks example_world
   \<and> ds (snd (Follow Inr healthy \<lparr>ID = ''bob''\<rparr> (\<lambda>n. ''cy@example.com'') example_world)) =
       (if ''cy@example.com'' \<in> set (IWantToFollow bob) then ds example_world
        else (ds example_world)\<lparr>users := AList.update (NewKey ''User'' (ID \<lparr>ID = ''bob''\<rparr>) 0 [])
               (bob\<lparr>IWantToFollow := IWantToFollow bob @ [''cy@example.com'']\<rparr>)
               (users (ds example_world))\<rparr>)"
proof -
  have h1: "(Inr :: string \<Rightarrow> error + string) ((\<lambda>n. ''cy@example.com'') ''email'') = Inr ''cy@example.com''"
    by simp
  have h2: "\<not> query_fails healthy ''User''" by (simp add: healthy_def)
  have h3: "list_all (\<lambda>(k, u). Email u \<noteq> ''cy@example.com'') (users (ds example_world))"
    by code_simp
  have h4: "Get healthy (NewKey ''User'' (ID \<lparr>ID = ''bob''\<rparr>) 0 []) (users (ds example_world)) = Inr bob"
    by code_simp
  have h5: "\<not> put_fails healthy (NewKey ''User'' (ID \<lparr>ID = ''bob''\<rparr>) 0 [])" by (simp add: healthy_def)
  have h6: "\<not> commit_fails healthy" by (simp add: healthy_def)
  show ?thesis
    by (rule Follow_records_intent [where decodeSegment = Inr and p = "\<lambda>n. ''cy@example.com''",
          OF h1 h2 h3 h4 h5 h6])
qed

section \<open>Properties of the photo handlers\<close>

lemma length_Split: "length (Split s sep) = Suc (count_list s sep)"
  by (induction s) (auto split: list.splits)

text \<open>
  C8. When the \<^verbatim>\<open>photoid\<close> parameter does not split at dots into exactly two segments,
  \<^verbatim>\<open>Like\<close>, \<^verbatim>\<open>Unlike\<close> and \<^verbatim>\<open>SetPhotoComments\<close> leave the world as it is and
  reply with the one status value ok.
\<close>

theorem malformed_photoid_no_op:
  assumes "length (Split (p ''photoid'') (CHR ''.'')) \<noteq> 2"
  shows "Like like cx acc p w = (replyOk [], w)
       \<and> Unlike unlike cx acc p w = (replyOk [], w)
       \<and> SetPhotoComments cx acc p w = (replyOk [], w)
       \<and> replyOk [] = [JSON_Status \<lparr>StatusKind = ''abelana#status'', StatusStatus = ''ok''\<rparr>]"
  using assms by (simp add: Like_def Unlike_def SetPhotoComments_def replyOk_def replyJSON_def)

theorem malformed_photoid_no_op_witness:
  "Like (\<lambda>cx u ph r. r) healthy \<lparr>ID = ''bob''\<rparr> (\<lambda>n. ''ann.1.webp'') example_world
     = (replyOk [], example_world)
   \<and> Unlike (\<lambda>cx u ph r. r) healthy \<lparr>ID = ''bob''\<rparr> (\<lambda>n. ''ann.1.webp'') example_world
     = (replyOk [], example_world)
   \<and> SetPhotoComments healthy \<lparr>ID = ''bob''\<rparr> (\<lambda>n. ''ann.1.webp'') example_world
     = (replyOk [], example_world)
   \<and> replyOk [] = [JSON_Status \<lparr>StatusKind = ''abelana#status'', StatusStatus = ''ok''\<rparr>]"
proof -
  have "length (Split ((\<lambda>n. ''ann.1.webp'') ''photoid'') (CHR ''.'')) \<noteq> 2" by simp
  then show ?thesis by (rule malformed_photoid_no_op)
qed

text \<open>The datastore after \<^verbatim>\<open>Like\<close>: at most the one \<^verbatim>\<open>Put\<close> under the caller's key.\<close>

lemma Like_ds:
  "ds (snd (Like like cx acc p w)) =
     (if length (Split (p ''photoid'') (CHR ''.'')) \<noteq> 2 then ds w
      else case Put cx (like_key acc p) \<lparr>LikeUserID = ID acc\<rparr> (likes (ds w)) of
             Inl err \<Rightarrow> ds w
           | Inr ls \<Rightarrow> (ds w)\<lparr>likes := ls\<rparr>)"
  by (simp add: Like_def Let_def like_key_def Errorf_log_def split: sum.splits)

text \<open>
  C10. For a caller with a non-empty user id whose first \<^verbatim>\<open>Like\<close> of a photo was not
  failed by the datastore, a second \<^verbatim>\<open>Like\<close> of the same photo leaves the datastore as
  the first left it: the Like entities under any photo, and their number, are the same.
\<close>

theorem Like_idempotent:
  assumes "ID acc \<noteq> []"
    and "\<not> put_fails cx1 (like_key acc p)"
  shows "ds (snd (Like like cx2 acc p (snd (Like like cx1 acc p w)))) = ds (snd (Like like cx1 acc p w))
       \<and> like_children photo (ds (snd (Like like cx2 acc p (snd (Like like cx1 acc p w)))))
           = like_children photo (ds (snd (Like like cx1 acc p w)))
       \<and> length (like_children photo (ds (snd (Like like cx2 acc p (snd (Like like cx1 acc p w))))))
           = length (like_children photo (ds (snd (Like like cx1 acc p w))))"
proof -
  have c: "complete_key n (like_key acc p) = like_key acc p" for n
    using assms(1) by (simp add: like_key_def NewKey_def)
  have "ds (snd (Like like cx2 acc p (snd (Like like cx1 acc p w)))) = ds (snd (Like like cx1 acc p w))"
    using assms(2)
    by (simp add: Like_ds [of like cx2] Like_ds [of like cx1 acc p w] Put_def c split: sum.splits)
  then show ?thesis by simp
qed

theorem Like_idempotent_witness:
  "ds (snd (Like (\<lambda>cx u ph r. r) (healthy\<lparr>alloc_id := 2\<rparr>) \<lparr>ID = ''bob''\<rparr> (\<lambda>n. ''ann.1'')
          (snd (Like (\<lambda>cx u ph r. r) healthy \<lparr>ID = ''bob''\<rparr> (\<lambda>n. ''ann.1'') example_world))))
     = ds (snd (Like (\<lambda>cx u ph r. r) healthy \<lparr>ID = ''bob''\<rparr> (\<lambda>n. ''ann.1'') example_world))
   \<and> length (like_children (NewKey ''Photo'' ''ann.1'' 0 (NewKey ''User'' ''ann'' 0 []))
        (ds (snd (Like (\<lambda>cx u ph r. r) healthy \<lparr>ID = ''bob''\<rparr> (\<lambda>n. ''ann.1'') example_world)))) = 1"
proof -
  have h1: "ID \<lparr>ID = ''bob''\<rparr> \<noteq> []" by simp
  have h2: "\<not> put_fails healthy (like_key \<lparr>ID = ''bob''\<rparr> (\<lambda>n. ''ann.1''))" by (simp add: healthy_def)
  have "length (like_children (NewKey ''Photo'' ''ann.1'' 0 (NewKey ''User'' ''ann'' 0 []))
        (ds (snd (Like (\<lambda>cx u ph r. r) healthy \<lparr>ID = ''bob''\<rparr> (\<lambda>n. ''ann.1'') example_world)))) = 1"
    by code_simp
  with Like_idempotent [OF h1 h2, of "\<lambda>cx u ph r. r" "healthy\<lparr>alloc_id := 2\<rparr>" example_world]
  show ?thesis by simp
qed

text \<open>
  The empty user id is left out above: its Like key is incomplete, and each \<^verbatim>\<open>Put\<close>
  stores a new entity under an allocated id.
\<close>

lemma Like_empty_id_example:
  "length (like_children (NewKey ''Photo'' ''ann.1'' 0 (NewKey ''User'' ''ann'' 0 []))
     (ds (snd (Like (\<lambda>cx u ph r. r) healthy \<lparr>ID = []\<rparr> (\<lambda>n. ''ann.1'') example_world)))) = 1
   \<and> length (like_children (NewKey ''Photo'' ''ann.1'' 0 (NewKey ''User'' ''ann'' 0 []))
     (ds (snd (Like (\<lambda>cx u ph r. r) (healthy\<lparr>alloc_id := 2\<rparr>) \<lparr>ID = []\<rparr> (\<lambda>n. ''ann.1'')
        (snd (Like (\<lambda>cx u ph r. r) healthy \<lparr>ID = []\<rparr> (\<lambda>n. ''ann.1'') example_world)))))) = 2"
  by code_simp

section \<open>Statistics\<close>

text \<open>When the lookup succeeds the reply is the two counts.\<close>

lemma Statistics_found:
  "findUser cx (ID acc) (ds w) = Inr u \<Longrightarrow>
     Statistics cx acc p w =
       ((Returned, [JSON_Stats \<lparr>Following = int (length (IFollow u)),
                                 Followers = int (length (FollowsMe u))\<rparr>]), w)"
  by (simp add: Statistics_def replyJSON_def)

lemma Statistics_not_found:
  "findUser cx (ID acc) (ds w) = Inl err \<Longrightarrow>
     fst (Statistics cx acc p w) =
       (Panicked, [JSON_Stats \<lparr>Following = - 1, Followers = - 1\<rparr>])"
  by (simp add: Statistics_def replyJSON_def)

text \<open>
  C3 fails on the code. For a caller whose User entity is missing, \<^verbatim>\<open>Statistics\<close> writes
  the degraded value and then panics instead of returning.
\<close>

theorem Statistics_missing_user:
  "fst (Statistics healthy \<lparr>ID = ''zed''\<rparr> (\<lambda>n. []) example_world) =
     (Panicked, [JSON_Stats \<lparr>Following = - 1, Followers = - 1\<rparr>])"
  by code_simp

section \<open>Properties of the profile reader\<close>

lemma profileForUser_result:
  "fst (profileForUser cfg cx userID lastDate w) =
     (map (\<lambda>(pk, p). \<lparr>Created = Date p, TLUserID = userID,
              Name = DisplayName (case Get cx (NewKey ''User'' userID 0 []) (users (ds w)) of
                                    Inl err \<Rightarrow> zeroUser | Inr u \<Rightarrow> u),
              TLPhotoID = PhotoID p, Likes = - 1, ILike = False\<rparr>)
        (fst (GetAll props_Photo cx (profile_query userID lastDate (TimelineBatchSize cfg))
                (photos (ds w)))), None)"
  by (simp add: profileForUser_def profile_query_def Let_def Errorf_log_def Infof_log_def
        split: sum.splits prod.splits)

lemma q_err_Order: "q_err q \<noteq> None \<Longrightarrow> q_err (Order s q) \<noteq> None"
  by (simp add: Order_def Let_def)

lemma q_err_Limit: "q_err q \<noteq> None \<Longrightarrow> q_err (Limit n q) \<noteq> None"
  by (simp add: Limit_def)

lemma GetAll_q_err: "q_err q \<noteq> None \<Longrightarrow> fst (GetAll props cx q tab) = []"
  by (auto simp: GetAll_def)

lemma profile_query_cursor:
  "lastDate \<noteq> [] \<Longrightarrow> lastDate \<noteq> ''0'' \<Longrightarrow> q_err (profile_query userID lastDate n) \<noteq> None"
  by (simp add: profile_query_def q_err_Limit q_err_Order Filter_empty)

lemma profile_query_first_page:
  assumes "lastDate = [] \<or> lastDate = ''0''" and "- (2 ^ 31) \<le> n" and "n < 2 ^ 31"
  shows "profile_query userID lastDate n =
           \<lparr>q_kind = ''Photo'', q_ancestor = NewKey ''User'' userID 0 [], q_filter = [],
            q_order = [(''Date'', True)], q_keysOnly = False, q_limit = n, q_err = None\<rparr>"
  using assms by (auto simp: profile_query_def Order_Date Limit_def Ancestor_def NewQuery_def NewKey_def)

lemma before_Date:
  "before [(''Date'', True)] (props_Photo p1) (props_Photo p2) \<longleftrightarrow> Date p2 \<le> Date p1"
  by (auto simp: props_Photo_def order_value_def)

lemma set_insert_by: "set (insert_by le x xs) = insert x (set xs)"
  by (induction xs) auto

lemma mset_insert_by: "mset (insert_by le x xs) = add_mset x (mset xs)"
  by (induction xs) auto

lemma mset_sort_by: "mset (sort_by le xs) = mset xs"
  by (induction xs) (simp_all add: sort_by_def mset_insert_by)

lemma set_sort_by: "set (sort_by le xs) = set xs"
  using mset_sort_by [of le xs] by (metis set_mset_mset)

lemma sorted_insert_by:
  assumes tot: "\<And>a b. le a b \<or> le b a" and tr: "\<And>a b c. le a b \<Longrightarrow> le b c \<Longrightarrow> le a c"
  shows "sorted_wrt le xs \<Longrightarrow> sorted_wrt le (insert_by le x xs)"
proof (induction xs)
  case Nil
  then show ?case by simp
next
  case (Cons y ys)
  show ?case
  proof (cases "le x y")
    case True
    then show ?thesis using Cons.prems tr by auto
  next
    case False
    then have "le y x" using tot by blast
    then show ?thesis using Cons False by (auto simp: set_insert_by)
  qed
qed

lemma sorted_sort_by:
  assumes tot: "\<And>a b. le a b \<or> le b a" and tr: "\<And>a b c. le a b \<Longrightarrow> le b c \<Longrightarrow> le a c"
  shows "sorted_wrt le (sort_by le xs)"
proof (induction xs)
  case Nil
  then show ?case by (simp add: sort_by_def)
next
  case (Cons x xs)
  then show ?case
    using sorted_insert_by [of le "sort_by le xs" x, OF tot tr]
    by (simp add: sort_by_def)
qed

lemma sorted_newer_or_same: "sorted_wrt newer_or_same (sort_by newer_or_same xs)"
  by (rule sorted_sort_by) (auto simp: newer_or_same_def)

text \<open>
  Without a cursor the query has the user's key as ancestor, no filter, the order by
  descending date and the page size as limit.
\<close>

lemma GetAll_first_page:
  assumes "lastDate = [] \<or> lastDate = ''0''" and "0 \<le> n" and "n < 2 ^ 31"
  shows "fst (GetAll props_Photo cx (profile_query userID lastDate n) (photos d)) =
           (if query_fails cx ''Photo'' then []
            else take (nat n) (sort_by newer_or_same (photos_of userID d)))"
proof -
  have le: "(\<lambda>(k1, e1) (k2, e2). before [(''Date'', True)] (props_Photo e1) (props_Photo e2))
              = newer_or_same"
    by (intro ext) (simp add: before_Date newer_or_same_def case_prod_unfold del: before.simps)
  have ov: "\<And>p. order_value (props_Photo p) ''Date'' \<noteq> None"
    by (simp add: order_value_def props_Photo_def)
  have "- (2 ^ 31) \<le> n" using assms(2) by simp
  from profile_query_first_page [OF assms(1) this assms(3)] show ?thesis
    using assms(2)
    by (simp add: GetAll_def le ov apply_limit_def photos_of_def del: before.simps not_None_eq)
qed

lemma profileForUser_page:
  assumes "0 \<le> TimelineBatchSize cfg"
  shows "\<exists>page. list_all2 (entry_of userID) page (fst (fst (profileForUser cfg cx userID lastDate w)))
           \<and> set page \<subseteq> set (photos_of userID (ds w))
           \<and> sorted_wrt newer_or_same page
           \<and> int (length page) \<le> TimelineBatchSize cfg
           \<and> (lastDate \<noteq> [] \<and> lastDate \<noteq> ''0'' \<longrightarrow> page = [])
           \<and> ((lastDate = [] \<or> lastDate = ''0'') \<and> \<not> query_fails cx ''Photo''
                 \<and> TimelineBatchSize cfg < 2 ^ 31 \<longrightarrow>
               page = take (nat (TimelineBatchSize cfg)) (sort_by newer_or_same (photos_of userID (ds w))))"
proof -
  let ?n = "TimelineBatchSize cfg"
  let ?page = "fst (GetAll props_Photo cx (profile_query userID lastDate ?n) (photos (ds w)))"
  let ?full = "take (nat ?n) (sort_by newer_or_same (photos_of userID (ds w)))"
  have l: "list_all2 (entry_of userID) ?page (fst (fst (profileForUser cfg cx userID lastDate w)))"
    by (simp add: profileForUser_result list_all2_map2 entry_of_def case_prod_unfold list_all2_same)
  have full: "set ?full \<subseteq> set (photos_of userID (ds w)) \<and> sorted_wrt newer_or_same ?full
                \<and> int (length ?full) \<le> ?n"
    using assms set_take_subset [of "nat ?n" "sort_by newer_or_same (photos_of userID (ds w))"]
    by (auto simp: set_sort_by sorted_wrt_take sorted_newer_or_same)
  have cases: "?page = [] \<or> ?page = ?full"
  proof (cases "lastDate \<noteq> [] \<and> lastDate \<noteq> ''0''")
    case True
    then show ?thesis by (simp add: GetAll_q_err profile_query_cursor)
  next
    case False
    show ?thesis
    proof (cases "?n < 2 ^ 31")
      case True
      from False have "lastDate = [] \<or> lastDate = ''0''" by blast
      from GetAll_first_page [OF this assms True] show ?thesis by simp
    next
      case False
      then have "q_err (profile_query userID lastDate ?n) \<noteq> None"
        by (simp add: profile_query_def Limit_def)
      then show ?thesis by (simp add: GetAll_q_err)
    qed
  qed
  have c1: "lastDate \<noteq> [] \<and> lastDate \<noteq> ''0'' \<longrightarrow> ?page = []"
    by (simp add: GetAll_q_err profile_query_cursor)
  have c2: "(lastDate = [] \<or> lastDate = ''0'') \<and> \<not> query_fails cx ''Photo'' \<and> ?n < 2 ^ 31
              \<longrightarrow> ?page = ?full"
    using GetAll_first_page [of lastDate ?n cx userID "ds w"] assms by auto
  have props: "set ?page \<subseteq> set (photos_of userID (ds w)) \<and> sorted_wrt newer_or_same ?page
                \<and> int (length ?page) \<le> ?n"
    using cases full assms by (elim disjE) simp_all
  show ?thesis
    using l props c1 c2 by blast
qed

lemma profileForUser_world:
  "snd (profileForUser cfg cx userID lastDate w) =
     w\<lparr>logs := logs w
        @ (case Get cx (NewKey ''User'' userID 0 []) (users (ds w)) of
             Inl err \<Rightarrow> [LogError ''profileForUser Get1 %v %v''] | Inr u \<Rightarrow> [])
        @ (if lastDate \<noteq> [] \<and> lastDate \<noteq> ''0'' \<and> snd (ParseInt lastDate) \<noteq> None
           then [LogError ''profileForUser ParseInt %v %v %v''] else [])
        @ (if snd (GetAll props_Photo cx (profile_query userID lastDate (TimelineBatchSize cfg))
                     (photos (ds w))) \<noteq> None
           then [LogError ''profileForUser get2 %v %v''] else [])
        @ [LogInfo ''profileForUser: %v'']\<rparr>"
proof -
  let ?k = "NewKey ''User'' userID 0 []"
  obtain n perr where p: "ParseInt lastDate = (n, perr)" by (cases "ParseInt lastDate")
  obtain res qerr where
    q: "GetAll props_Photo cx (profile_query userID lastDate (TimelineBatchSize cfg)) (photos (ds w))
          = (res, qerr)"
    by (cases "GetAll props_Photo cx (profile_query userID lastDate (TimelineBatchSize cfg))
                 (photos (ds w))")
  consider (empty) "lastDate = []" | (zero) "lastDate = ''0''"
    | (cursor) "lastDate \<noteq> []" "lastDate \<noteq> ''0''"
    by blast
  then show ?thesis
  proof cases
    case empty
    then show ?thesis using q
      by (cases "Get cx ?k (users (ds w))")
         (simp_all add: profileForUser_def profile_query_def Let_def Errorf_log_def Infof_log_def
              DEBUG_def)
  next
    case zero
    then show ?thesis using q
      by (cases "Get cx ?k (users (ds w))")
         (simp_all add: profileForUser_def profile_query_def Let_def Errorf_log_def Infof_log_def
              DEBUG_def)
  next
    case cursor
    then show ?thesis using p q
      by (cases "Get cx ?k (users (ds w))")
         (simp_all add: profileForUser_def profile_query_def Let_def Errorf_log_def Infof_log_def
              DEBUG_def)
  qed
qed

lemma GetAll_fails:
  "q_err q \<noteq> None \<or> query_fails cx (q_kind q) \<Longrightarrow> snd (GetAll props cx q tab) \<noteq> None"
  by (cases "q_err q") (auto simp: GetAll_def)

lemma q_kind_Order: "q_kind (Order s q) = q_kind q"
  by (simp add: Order_def Let_def)

lemma q_kind_Limit: "q_kind (Limit n q) = q_kind q"
  by (simp add: Limit_def)

lemma q_kind_Filter: "q_kind (Filter s v q) = q_kind q"
  by (simp add: Filter_def Let_def split: option.splits)

lemma q_kind_profile_query: "q_kind (profile_query userID lastDate n) = ''Photo''"
  by (simp add: profile_query_def q_kind_Limit q_kind_Order q_kind_Filter Ancestor_def NewQuery_def
        NewKey_def)

text \<open>
  C9. \<^verbatim>\<open>profileForUser\<close> returns a nil error on every input and leaves the datastore
  as it is; a failed lookup of the user, a cursor that does not parse and a failed photo
  query are each logged, and its caller \<^verbatim>\<open>GetMyProfile\<close> always replies with a timeline.
\<close>

theorem profileForUser_never_fails:
  "snd (fst (profileForUser cfg cx userID lastDate w)) = None
   \<and> ds (snd (profileForUser cfg cx userID lastDate w)) = ds w
   \<and> ((\<exists>err. Get cx (NewKey ''User'' userID 0 []) (users (ds w)) = Inl err) \<longrightarrow>
         LogError ''profileForUser Get1 %v %v'' \<in> set (logs (snd (profileForUser cfg cx userID lastDate w))))
   \<and> (lastDate \<noteq> [] \<and> lastDate \<noteq> ''0'' \<and> snd (ParseInt lastDate) \<noteq> None \<longrightarrow>
         LogError ''profileForUser ParseInt %v %v %v''
           \<in> set (logs (snd (profileForUser cfg cx userID lastDate w))))
   \<and> (query_fails cx ''Photo'' \<or> (lastDate \<noteq> [] \<and> lastDate \<noteq> ''0'') \<longrightarrow>
         LogError ''profileForUser get2 %v %v''
           \<in> set (logs (snd (profileForUser cfg cx userID lastDate w))))
   \<and> (\<exists>tline. fst (GetMyProfile cfg cx \<lparr>ID = userID\<rparr> (\<lambda>n. lastDate) w) =
         [JSON_Timeline \<lparr>TimelineKind = ''abelana#timeline'', Entries = tline\<rparr>])"
proof -
  have q: "query_fails cx ''Photo'' \<or> (lastDate \<noteq> [] \<and> lastDate \<noteq> ''0'') \<Longrightarrow>
        snd (GetAll props_Photo cx (profile_query userID lastDate (TimelineBatchSize cfg))
               (photos (ds w))) \<noteq> None"
    using profile_query_cursor [of lastDate userID "TimelineBatchSize cfg"]
    by (intro GetAll_fails) (auto simp: q_kind_profile_query simp del: not_None_eq)
  have g: "\<exists>tline. fst (GetMyProfile cfg cx \<lparr>ID = userID\<rparr> (\<lambda>n. lastDate) w) =
         [JSON_Timeline \<lparr>TimelineKind = ''abelana#timeline'', Entries = tline\<rparr>]"
    using profileForUser_result [of cfg cx userID lastDate w]
    by (cases "profileForUser cfg cx userID lastDate w") (auto simp: GetMyProfile_def replyJSON_def)
  have w: "logs (snd (profileForUser cfg cx userID lastDate w)) = logs w
        @ (case Get cx (NewKey ''User'' userID 0 []) (users (ds w)) of
             Inl err \<Rightarrow> [LogError ''profileForUser Get1 %v %v''] | Inr u \<Rightarrow> [])
        @ (if lastDate \<noteq> [] \<and> lastDate \<noteq> ''0'' \<and> snd (ParseInt lastDate) \<noteq> None
           then [LogError ''profileForUser ParseInt %v %v %v''] else [])
        @ (if snd (GetAll props_Photo cx (profile_query userID lastDate (TimelineBatchSize cfg))
                     (photos (ds w))) \<noteq> None
           then [LogError ''profileForUser get2 %v %v''] else [])
        @ [LogInfo ''profileForUser: %v'']"
    by (simp add: profileForUser_world)
  have c1: "snd (fst (profileForUser cfg cx userID lastDate w)) = None"
    by (simp add: profileForUser_result)
  have c2: "ds (snd (profileForUser cfg cx userID lastDate w)) = ds w"
    by (simp add: profileForUser_world)
  have c3: "(\<exists>err. Get cx (NewKey ''User'' userID 0 []) (users (ds w)) = Inl err) \<longrightarrow>
         LogError ''profileForUser Get1 %v %v'' \<in> set (logs (snd (profileForUser cfg cx userID lastDate w)))"
    unfolding w by auto
  have c4: "lastDate \<noteq> [] \<and> lastDate \<noteq> ''0'' \<and> snd (ParseInt lastDate) \<noteq> None \<longrightarrow>
         LogError ''profileForUser ParseInt %v %v %v''
           \<in> set (logs (snd (profileForUser cfg cx userID lastDate w)))"
    unfolding w by simp
  have c5: "query_fails cx ''Photo'' \<or> (lastDate \<noteq> [] \<and> lastDate \<noteq> ''0'') \<longrightarrow>
         LogError ''profileForUser get2 %v %v''
           \<in> set (logs (snd (profileForUser cfg cx userID lastDate w)))"
    unfolding w using q by simp
  show ?thesis
    by (intro conjI c1 c2 c3 c4 c5 g)
qed

theorem profileForUser_never_fails_witness:
  "snd (fst (profileForUser \<lparr>TimelineBatchSize = 300\<rparr> healthy ''zed'' ''abc'' example_world)) = None
   \<and> LogError ''profileForUser Get1 %v %v''
        \<in> set (logs (snd (profileForUser \<lparr>TimelineBatchSize = 300\<rparr> healthy ''zed'' ''abc'' example_world)))
   \<and> LogError ''profileForUser ParseInt %v %v %v''
        \<in> set (logs (snd (profileForUser \<lparr>TimelineBatchSize = 300\<rparr> healthy ''zed'' ''abc'' example_world)))
   \<and> LogError ''profileForUser get2 %v %v''
        \<in> set (logs (snd (profileForUser \<lparr>TimelineBatchSize = 300\<rparr> healthy ''zed'' ''abc'' example_world)))"
proof -
  have h1: "\<exists>err. Get healthy (NewKey ''User'' ''zed'' 0 []) (users (ds example_world)) = Inl err"
    by (rule exI [of _ ErrNoSuchEntity]) code_simp
  have h2: "''abc'' \<noteq> [] \<and> ''abc'' \<noteq> ''0'' \<and> snd (ParseInt ''abc'') \<noteq> None"
    by code_simp
  from profileForUser_never_fails [of "\<lparr>TimelineBatchSize = 300\<rparr>" healthy "''zed''" "''abc''" example_world]
    h1 h2
  show ?thesis by simp
qed

text \<open>
  With a cursor, the source passes the empty string as the filter of the query. The query
  is then in error, so the page is empty whatever the user's photos are.
\<close>

lemma profileForUser_cursor_empty:
  "lastDate \<noteq> [] \<Longrightarrow> lastDate \<noteq> ''0'' \<Longrightarrow>
     fst (fst (profileForUser cfg cx userID lastDate w)) = []"
  by (simp add: profileForUser_result GetAll_q_err profile_query_cursor)

text \<open>
  C2 fails on the code. Ann has a photo of date 5 and one of date 9; the page asked for
  with cursor \<^verbatim>\<open>9\<close> should hold the photo of date 5. The empty filter string puts the
  query in error, the error is logged, and the page is empty.
\<close>

theorem profileForUser_cursor_page_lost:
  "ParseInt ''9'' = (9, None)
   \<and> map snd (photos_of ''ann'' (ds example_world))
        = [\<lparr>PhotoID = ''ann.1'', Date = 5\<rparr>, \<lparr>PhotoID = ''ann.2'', Date = 9\<rparr>]
   \<and> fst (profileForUser \<lparr>TimelineBatchSize = 300\<rparr> healthy ''ann'' ''9'' example_world) = ([], None)
   \<and> logs (snd (profileForUser \<lparr>TimelineBatchSize = 300\<rparr> healthy ''ann'' ''9'' example_world))
        = [LogError ''profileForUser get2 %v %v'', LogInfo ''profileForUser: %v'']
   \<and> q_err (Filter [] (VInt 9) (Ancestor (NewKey ''User'' ''ann'' 0 []) (NewQuery ''Photo'')))
        = Some ErrInvalidFilter"
  by code_simp

lemma sorted_wrt_entries:
  "list_all2 (entry_of userID) page tline \<Longrightarrow> sorted_wrt newer_or_same page \<Longrightarrow>
     sorted_wrt (\<lambda>a b. Created b \<le> Created a) tline"
proof -
  assume l: "list_all2 (entry_of userID) page tline" and o: "sorted_wrt newer_or_same page"
  have len: "length page = length tline" using l by (rule list_all2_lengthD)
  have c: "\<And>i. i < length tline \<Longrightarrow> Created (tline ! i) = Date (snd (page ! i))"
    using l by (simp add: list_all2_conv_all_nth entry_of_def)
  show ?thesis
    unfolding sorted_wrt_iff_nth_less
  proof (intro allI impI)
    fix i j assume ij: "i < j" "j < length tline"
    then have "newer_or_same (page ! i) (page ! j)"
      using o len by (simp add: sorted_wrt_iff_nth_less)
    then show "Created (tline ! j) \<le> Created (tline ! i)"
      using ij c by (simp add: newer_or_same_def)
  qed
qed

text \<open>
  For a page size that is not negative, the entries \<^verbatim>\<open>profileForUser\<close> returns show
  photos of the user only, in descending order of date, and at most the page size many.
  With an empty or \<^verbatim>\<open>0\<close> cursor, when the query succeeds, they are the first entries
  of all the user's photos sorted newest first.
\<close>

lemma profileForUser_first_page:
  assumes "0 \<le> TimelineBatchSize cfg"
  shows "\<exists>page.
           list_all2 (entry_of userID) page (fst (fst (profileForUser cfg cx userID lastDate w)))
         \<and> set page \<subseteq> set (photos_of userID (ds w))
         \<and> sorted_wrt (\<lambda>a b. Created b \<le> Created a) (fst (fst (profileForUser cfg cx userID lastDate w)))
         \<and> int (length (fst (fst (profileForUser cfg cx userID lastDate w)))) \<le> TimelineBatchSize cfg
         \<and> ((lastDate = [] \<or> lastDate = ''0'') \<and> \<not> query_fails cx ''Photo''
               \<and> TimelineBatchSize cfg < 2 ^ 31 \<longrightarrow>
             (\<exists>newest. mset newest = mset (photos_of userID (ds w))
                \<and> sorted_wrt newer_or_same newest
                \<and> page = take (nat (TimelineBatchSize cfg)) newest))"
proof -
  let ?tline = "fst (fst (profileForUser cfg cx userID lastDate w))"
  let ?n = "TimelineBatchSize cfg"
  let ?newest = "sort_by newer_or_same (photos_of userID (ds w))"
  from profileForUser_page [OF assms, of userID cx lastDate w] obtain page where
    l: "list_all2 (entry_of userID) page ?tline" and
    s: "set page \<subseteq> set (photos_of userID (ds w))" and
    o: "sorted_wrt newer_or_same page" and
    n: "int (length page) \<le> ?n" and
    c: "lastDate \<noteq> [] \<and> lastDate \<noteq> ''0'' \<longrightarrow> page = []" and
    f: "(lastDate = [] \<or> lastDate = ''0'') \<and> \<not> query_fails cx ''Photo'' \<and> ?n < 2 ^ 31 \<longrightarrow>
          page = take (nat ?n) ?newest"
    by blast
  have len: "length ?tline = length page"
    using l by (simp add: list_all2_lengthD)
  have f': "(lastDate = [] \<or> lastDate = ''0'') \<and> \<not> query_fails cx ''Photo'' \<and> ?n < 2 ^ 31 \<longrightarrow>
             (\<exists>newest. mset newest = mset (photos_of userID (ds w))
                \<and> sorted_wrt newer_or_same newest \<and> page = take (nat ?n) newest)"
  proof
    assume a: "(lastDate = [] \<or> lastDate = ''0'') \<and> \<not> query_fails cx ''Photo'' \<and> ?n < 2 ^ 31"
    have "mset ?newest = mset (photos_of userID (ds w)) \<and> sorted_wrt newer_or_same ?newest
            \<and> page = take (nat ?n) ?newest"
      using a f by (simp add: mset_sort_by sorted_newer_or_same)
    then show "\<exists>newest. mset newest = mset (photos_of userID (ds w))
                \<and> sorted_wrt newer_or_same newest \<and> page = take (nat ?n) newest"
      by blast
  qed
  have "list_all2 (entry_of userID) page ?tline
         \<and> set page \<subseteq> set (photos_of userID (ds w))
         \<and> sorted_wrt (\<lambda>a b. Created b \<le> Created a) ?tline
         \<and> int (length ?tline) \<le> ?n
         \<and> ((lastDate = [] \<or> lastDate = ''0'') \<and> \<not> query_fails cx ''Photo'' \<and> ?n < 2 ^ 31 \<longrightarrow>
             (\<exists>newest. mset newest = mset (photos_of userID (ds w))
                \<and> sorted_wrt newer_or_same newest \<and> page = take (nat ?n) newest))"
    using l s sorted_wrt_entries [OF l o] n len f' by (intro conjI) simp_all
  then show ?thesis by (rule exI)
qed

lemma profileForUser_first_page_example:
  "fst (fst (profileForUser \<lparr>TimelineBatchSize = 1\<rparr> healthy ''ann'' ''0'' example_world)) =
     [\<lparr>Created = 9, TLUserID = ''ann'', Name = ''Ann'', TLPhotoID = ''ann.2'', Likes = - 1, ILike = False\<rparr>]
   \<and> (\<exists>page.
           list_all2 (entry_of ''ann'') page
             (fst (fst (profileForUser \<lparr>TimelineBatchSize = 1\<rparr> healthy ''ann'' ''0'' example_world)))
         \<and> set page \<subseteq> set (photos_of ''ann'' (ds example_world))
         \<and> (\<exists>newest. mset newest = mset (photos_of ''ann'' (ds example_world))
                \<and> sorted_wrt newer_or_same newest
                \<and> page = take (nat (TimelineBatchSize \<lparr>TimelineBatchSize = 1\<rparr>)) newest))"
proof -
  have h: "0 \<le> TimelineBatchSize \<lparr>TimelineBatchSize = 1\<rparr>" by simp
  have v: "fst (fst (profileForUser \<lparr>TimelineBatchSize = 1\<rparr> healthy ''ann'' ''0'' example_world)) =
     [\<lparr>Created = 9, TLUserID = ''ann'', Name = ''Ann'', TLPhotoID = ''ann.2'', Likes = - 1, ILike = False\<rparr>]"
    by code_simp
  have q: "(''0'' = [] \<or> ''0'' = ''0'') \<and> \<not> query_fails healthy ''Photo''
            \<and> TimelineBatchSize \<lparr>TimelineBatchSize = 1\<rparr> < 2 ^ 31"
    by (simp add: healthy_def)
  from profileForUser_first_page [OF h, of "''ann''" healthy "''0''" example_world] q
  have "\<exists>page.
           list_all2 (entry_of ''ann'') page
             (fst (fst (profileForUser \<lparr>TimelineBatchSize = 1\<rparr> healthy ''ann'' ''0'' example_world)))
         \<and> set page \<subseteq> set (photos_of ''ann'' (ds example_world))
         \<and> (\<exists>newest. mset newest = mset (photos_of ''ann'' (ds example_world))
                \<and> sorted_wrt newer_or_same newest
                \<and> page = take (nat (TimelineBatchSize \<lparr>TimelineBatchSize = 1\<rparr>)) newest)"
    by blast
  with v show ?thesis by blast
qed

end
